theory Spec2Isabelle
  imports Main
begin

section \<open>JavaScript values, errors and strings\<close>

text \<open>
  The plugin of \<^verbatim>\<open>src/index.js\<close> reads option values, literal values of syntax-tree
  nodes and file names. A JavaScript value is modelled by the cases the code tells apart:
  \<^verbatim>\<open>x != null\<close>, \<^verbatim>\<open>typeof x === 'string'\<close>, \<^verbatim>\<open>typeof x === 'function'\<close>,
  truthiness, and the call of a string method on it. Strings are lists of code units
  below 256; numbers are the integers (only their truthiness is ever read).
\<close>

datatype jsval = JUndefined | JNull | JBool bool | JNum int | JStr string | JFunction | JObject

fun nullish :: "jsval \<Rightarrow> bool" where
  "nullish JUndefined = True"
| "nullish JNull = True"
| "nullish _ = False"

fun truthy :: "jsval \<Rightarrow> bool" where
  "truthy JUndefined = False"
| "truthy JNull = False"
| "truthy (JBool b) = b"
| "truthy (JNum n) = (n \<noteq> 0)"
| "truthy (JStr s) = (s \<noteq> [])"
| "truthy JFunction = True"
| "truthy JObject = True"

text \<open>An uncaught exception of the source is the left summand of a result.\<close>

datatype error = Error string | TypeError string

definition startsWith :: "string \<Rightarrow> string \<Rightarrow> bool" where
  "startsWith s p = (take (length p) s = p)"

definition endsWith :: "string \<Rightarrow> string \<Rightarrow> bool" where
  "endsWith s p = (length p \<le> length s \<and> drop (length s - length p) s = p)"

text \<open>\<^verbatim>\<open>Array.prototype.join\<close> on an array of strings.\<close>

fun join :: "string \<Rightarrow> string list \<Rightarrow> string" where
  "join sep [] = []"
| "join sep [x] = x"
| "join sep (x # y # ys) = x @ sep @ join sep (y # ys)"

definition VIRTUAL_ID_IMPORT :: string where
  "VIRTUAL_ID_IMPORT = ''preloaddeps:import''"

definition MARKER :: string where
  \<open>MARKER = ''"__IMPORT_DEPS__"''\<close>

section \<open>Plugin setup\<close>

text \<open>
  The options object as the code reads it. Besides the four documented properties the code
  reads \<^verbatim>\<open>options.anononymousCrossOrigin\<close> (line 22), so that property is a field too.
  An absent property is \<open>JUndefined\<close>.
\<close>

record options =
  hoist_method :: jsval
  setAnonymousCrossOrigin :: jsval
  anononymousCrossOrigin :: jsval
  baseUrl :: jsval
  customPreload :: jsval

definition no_options :: options where
  "no_options = \<lparr>hoist_method = JUndefined, setAnonymousCrossOrigin = JUndefined,
     anononymousCrossOrigin = JUndefined, baseUrl = JUndefined, customPreload = JUndefined\<rparr>"

definition canonicalize :: "string \<Rightarrow> string" where
  "canonicalize path0 =
     (let path1 = (if startsWith path0 ''/'' then drop 1 path0 else path0);
          path2 = (if endsWith path1 ''/'' then take (length path1 - 1) path1 else path1)
      in path2)"

definition custom_error :: string where
  "custom_error = ''hoistImportDeps: options.method was set to 'custom' but options.customPreload is not a function''"

text \<open>
  \<^verbatim>\<open>hoistImportDeps(options)\<close>, lines 18 to 28: the argument defaults to the empty object,
  the four properties are resolved in the order of the source, and the configuration check
  throws. The plugin object the source returns is a closure over the resolved options; here
  the resolved options are returned and every hook takes them as its first argument.
\<close>

definition hoistImportDeps :: "options option \<Rightarrow> error + options" where
  "hoistImportDeps arg =
     (let o0 = (case arg of None \<Rightarrow> no_options | Some ob \<Rightarrow> ob);
          o1 = o0\<lparr>hoist_method := (if \<not> nullish (hoist_method o0) then hoist_method o0 else JStr ''preload'')\<rparr>;
          o2 = o1\<lparr>setAnonymousCrossOrigin :=
                  (if \<not> nullish (setAnonymousCrossOrigin o1) then anononymousCrossOrigin o1
                   else JBool True)\<rparr>;
          o3 = o2\<lparr>baseUrl := (case baseUrl o2 of JStr p \<Rightarrow> JStr (canonicalize p) | _ \<Rightarrow> JNull)\<rparr>
      in if hoist_method o3 = JStr ''custom'' \<and> customPreload o3 \<noteq> JFunction
         then Inl (Error custom_error)
         else Inr o3)"

section \<open>The dependency name resolver\<close>

text \<open>
  The bundle is the object rollup hands to \<^verbatim>\<open>generateBundle\<close>: file names mapped to
  output chunks or assets, listed in the order of \<^verbatim>\<open>Object.keys(bundle)\<close>.
  \<^verbatim>\<open>bundle[name]\<close> is \<open>map_of\<close>.
\<close>

record chunk =
  fileName :: string
  code :: string
  chunk_imports :: "string list"
  dynamicImports :: "string list"

datatype bundle_entry = OutputChunk chunk | OutputAsset string

type_synonym output_bundle = "(string \<times> bundle_entry) list"

text \<open>
  \<^verbatim>\<open>getDeps(chunkName, bundle)\<close>, lines 32 to 53. The caller passes the value of a literal
  node, which need not be a string: \<^verbatim>\<open>chunkName.startsWith\<close> is then not a function.
  An asset has no \<^verbatim>\<open>imports\<close> property, so reading its length throws.
\<close>

definition quote_dep :: "options \<Rightarrow> bool \<Rightarrow> string \<Rightarrow> string" where
  \<open>quote_dep opts amd s =
     ''"./'' @ (if amd \<and> hoist_method opts = JStr ''import'' then take (length s - 3) s else s) @ ''"''\<close>

definition getDeps :: "options \<Rightarrow> jsval \<Rightarrow> output_bundle \<Rightarrow> error + string" where
  "getDeps opts chunkName bundle =
     (case chunkName of
        JStr cn \<Rightarrow>
          (let name0 = (if startsWith cn ''./'' then drop 2 cn else cn);
               amd = (\<not> endsWith name0 ''.js'');
               name = (if amd then name0 @ ''.js'' else name0)
           in case map_of bundle name of
                None \<Rightarrow> Inr []
              | Some (OutputAsset _) \<Rightarrow>
                  Inl (TypeError ''Cannot read properties of undefined (reading 'length')'')
              | Some (OutputChunk ch) \<Rightarrow>
                  if length (chunk_imports ch) > 0
                  then Inr (join '','' (map (quote_dep opts amd) (chunk_imports ch)))
                  else Inr [])
      | _ \<Rightarrow> Inl (TypeError ''chunkName.startsWith is not a function''))"

section \<open>The virtual loader module\<close>

definition resolveId :: "string \<Rightarrow> string option" where
  "resolveId ident = (if ident = VIRTUAL_ID_IMPORT then Some ident else None)"

text \<open>The fixed text of the template of lines 72 to 130, before and after its two interpolations.\<close>

definition template_head :: "string list" where
  \<open>template_head =
    [''const seen = new Set();'',
     ''const requestIdleCallback = (typeof window !== 'undefined' && window.requestIdleCallback) ||'',
     ''  function (cb) {'',
     ''    const start = Date.now();'',
     ''    return setTimeout(function () {'',
     ''      cb({'',
     ''        didTimeout: false,'',
     ''        timeRemaining: function () {'',
     ''          return Math.max(0, 50 - (Date.now() - start));'',
     ''      },'',
     ''    });'',
     ''  }, 1);'',
     ''};'',
     ''function preloadOrPrefetch(dep, method) {'',
     ''  if (seen.has(dep)) {'',
     ''    return Promise.resolve({});'',
     ''  };'',
     ''  seen.add(dep);'',
     ''  return new Promise((res, rej) => {'',
     ''    const el = document.createElement('link');'',
     ''    const hasSupport = el.relList && el.relList.supports && el.relList.supports(method);'',
     ''    if (hasSupport) {'']\<close>

definition template_tail :: "string list" where
  \<open>template_tail =
    [''      document.head.appendChild(el);'',
     ''    } else {'',
     ''      let fetchFn;'',
     ''      if (window.fetch != null) {'',
     ''        fetchFn = () => fetch(dep, {credentials: 'same-origin'}).then(() => { return {}; });'',
     ''      } else {'',
     ''        fetchFn = () => new Promise((ires, irej) => {'',
     ''          const req = new XMLHttpRequest();'',
     ''          req.open('GET', dep, req.withCredentials=true);'',
     ''          req.onload = () => {'',
     ''            (req.status === 200) ? ires({}) : irej();'',
     ''          };'',
     ''          req.send();    '',
     ''        });'',
     ''      }'',
     ''      if (method === 'preload') {'',
     ''        fetchFn().then(res).catch(rej);'',
     ''      } else {'',
     ''        requestIdleCallback(() => fetchFn().then(res).catch(rej), {timeout: 2000});'',
     ''      }'',
     ''    }'',
     ''  });'',
     ''}'',
     ''export function __loadDeps(baseImport, ...deps) {'',
     ''  const method = (typeof window !== 'undefined' && !!window['HOIST_PREFETCH']) ? 'prefetch' : 'preload';'',
     ''  if (typeof document !== 'undefined' && document.createElement != null && document.head != null) {'',
     ''    for (let dep of deps) {'',
     ''      if (!dep.endsWith('.js')) dep += '.js';'',
     ''      preloadOrPrefetch(dep, method);'',
     ''    }'',
     ''  }'',
     ''  return (method === 'preload') ? import(baseImport) : preloadOrPrefetch(baseImport, method);'',
     ''}'']\<close>

definition baseUrlStmt :: "options \<Rightarrow> string" where
  "baseUrlStmt opts =
     (case baseUrl opts of
        JStr b \<Rightarrow> ''dep = '/'' @ b @ ''/' + dep.substring(2);''
      | _ \<Rightarrow> [])"

definition crossOriginAttr :: "options \<Rightarrow> string" where
  "crossOriginAttr opts =
     (if truthy (setAnonymousCrossOrigin opts) then ''crossOrigin: 'anonymous','' else [])"

definition loader_template :: "string \<Rightarrow> string \<Rightarrow> string" where
  "loader_template stmt attr =
     join [CHR 0x0A]
       (template_head
        @ [''      '' @ stmt @ '';'',
           ''      Object.assign(el, { href: dep, rel: method, as: 'script', '' @ attr
             @ '' onload: () => { el.remove(); res({}); }, onerror: () => { el.remove(); rej(); }});'']
        @ template_tail)"

text \<open>\<^verbatim>\<open>load(id)\<close>, lines 66 to 133, on resolved options (where \<^verbatim>\<open>baseUrl\<close> is a string or null).\<close>

definition load :: "options \<Rightarrow> string \<Rightarrow> string option" where
  "load opts ident =
     (if ident = VIRTUAL_ID_IMPORT
      then Some (loader_template (baseUrlStmt opts) (crossOriginAttr opts))
      else None)"

section \<open>Syntax trees and the walker\<close>

text \<open>
  \<^verbatim>\<open>this.parse\<close> returns an ESTree. The plugin tells four kinds of node apart: a
  \<^verbatim>\<open>Literal\<close> (start, end, \<^verbatim>\<open>value\<close>, \<^verbatim>\<open>raw\<close>), an \<^verbatim>\<open>ImportExpression\<close> (start, end,
  \<^verbatim>\<open>source\<close>, and the child nodes that follow it), a node with an \<^verbatim>\<open>arguments\<close>
  array (start, end, \<^verbatim>\<open>callee\<close>, \<^verbatim>\<open>arguments\<close>: a call or a \<^verbatim>\<open>new\<close> expression), and
  every other node, of which only the positions and the child nodes, in property order,
  matter.
\<close>

datatype node =
    Literal nat nat jsval string
  | ImportExpression nat nat "node option" "node list"
  | Call nat nat node "node list"
  | Other nat nat "node list"

fun nstart :: "node \<Rightarrow> nat" where
  "nstart (Literal s e v r) = s"
| "nstart (ImportExpression s e src rest) = s"
| "nstart (Call s e c args) = s"
| "nstart (Other s e ks) = s"

fun nend :: "node \<Rightarrow> nat" where
  "nend (Literal s e v r) = e"
| "nend (ImportExpression s e src rest) = e"
| "nend (Call s e c args) = e"
| "nend (Other s e ks) = e"

fun is_ImportExpression :: "node \<Rightarrow> bool" where
  "is_ImportExpression (ImportExpression s e src rest) = True"
| "is_ImportExpression _ = False"

fun is_marker :: "node \<Rightarrow> bool" where
  "is_marker (Literal s e v r) = (r = MARKER)"
| "is_marker _ = False"

text \<open>
  \<^verbatim>\<open>walk(ast, { enter })\<close> of estree-walker calls \<^verbatim>\<open>enter(node, parent)\<close> on the root with
  no parent and then on every child node, depth first, in property order. Neither callback
  of the plugin skips or replaces a node, so the calls are the pre-order list of the nodes
  with their parents.
\<close>

type_synonym visit = "node \<times> node option"

fun visits :: "node option \<Rightarrow> node \<Rightarrow> visit list"
  and visits_list :: "node \<Rightarrow> node list \<Rightarrow> visit list" where
  "visits p (Literal s e v r) = [(Literal s e v r, p)]"
| "visits p (ImportExpression s e src rest) =
     (ImportExpression s e src rest, p)
     # (case src of None \<Rightarrow> [] | Some x \<Rightarrow> visits (Some (ImportExpression s e src rest)) x)
     @ visits_list (ImportExpression s e src rest) rest"
| "visits p (Call s e c args) =
     (Call s e c args, p) # visits (Some (Call s e c args)) c @ visits_list (Call s e c args) args"
| "visits p (Other s e ks) = (Other s e ks, p) # visits_list (Other s e ks) ks"
| "visits_list par [] = []"
| "visits_list par (k # ks) = visits (Some par) k @ visits_list par ks"

text \<open>A callback that throws ends the walk: the exception leaves \<^verbatim>\<open>walk\<close>.\<close>

fun walk_fold :: "(visit \<Rightarrow> 's \<Rightarrow> error + 's) \<Rightarrow> visit list \<Rightarrow> 's \<Rightarrow> error + 's" where
  "walk_fold enter [] st = Inr st"
| "walk_fold enter (v # vs) st =
     (case enter v st of Inl err \<Rightarrow> Inl err | Inr st' \<Rightarrow> walk_fold enter vs st')"

definition walk :: "node \<Rightarrow> (visit \<Rightarrow> 's \<Rightarrow> error + 's) \<Rightarrow> 's \<Rightarrow> error + 's" where
  "walk ast enter st = walk_fold enter (visits None ast) st"

section \<open>The edit buffer\<close>

text \<open>
  \<^verbatim>\<open>MagicString\<close> of magic-string, as far as the plugin calls it. The buffer is the
  original text, an intro, an outro and the chain of chunks; a chunk covers the original
  text from \<open>cstart\<close> to \<open>cend\<close>, has its own intro and outro, and after an edit its content
  is the replacement (\<open>cedit\<close>), otherwise the original text it covers.
\<close>

record ms_chunk =
  cstart :: nat
  cend :: nat
  cintro :: string
  coutro :: string
  cedit :: "string option"

record magic_string =
  original :: string
  intro :: string
  outro :: string
  chunks :: "ms_chunk list"

definition MagicString :: "string \<Rightarrow> magic_string" where
  "MagicString src =
     \<lparr>original = src, intro = [], outro = [],
      chunks = [\<lparr>cstart = 0, cend = length src, cintro = [], coutro = [], cedit = None\<rparr>]\<rparr>"

definition slice :: "string \<Rightarrow> nat \<Rightarrow> nat \<Rightarrow> string" where
  "slice src a b = take (b - a) (drop a src)"

definition chunk_toString :: "string \<Rightarrow> ms_chunk \<Rightarrow> string" where
  "chunk_toString src c =
     cintro c @ (case cedit c of None \<Rightarrow> slice src (cstart c) (cend c) | Some t \<Rightarrow> t) @ coutro c"

definition toString :: "magic_string \<Rightarrow> string" where
  "toString m = intro m @ concat (map (chunk_toString (original m)) (chunks m)) @ outro m"

text \<open>
  \<^verbatim>\<open>_split(index)\<close>: nothing to do where a chunk already starts or ends at the index;
  otherwise the chunk that contains the index is cut in two. The first half keeps the intro,
  the second half takes the outro. A chunk that was edited to a non-empty content cannot be
  cut; one edited to the empty content is cut into two such chunks, the second without intro
  and outro.
\<close>

fun split_chunks :: "nat \<Rightarrow> ms_chunk list \<Rightarrow> error + ms_chunk list" where
  "split_chunks index [] = Inr []"
| "split_chunks index (c # cs) =
     (if cstart c < index \<and> index < cend c
      then (case cedit c of
              None \<Rightarrow>
                Inr (c\<lparr>cend := index, coutro := []\<rparr>
                     # \<lparr>cstart = index, cend = cend c, cintro = [], coutro = coutro c, cedit = None\<rparr>
                     # cs)
            | Some [] \<Rightarrow>
                Inr (c\<lparr>cend := index, coutro := []\<rparr>
                     # \<lparr>cstart = index, cend = cend c, cintro = [], coutro = [], cedit = Some []\<rparr>
                     # cs)
            | Some (x # xs) \<Rightarrow>
                Inl (Error ''Cannot split a chunk that has already been edited''))
      else (case split_chunks index cs of Inl err \<Rightarrow> Inl err | Inr cs' \<Rightarrow> Inr (c # cs')))"

definition ms_split :: "nat \<Rightarrow> magic_string \<Rightarrow> error + magic_string" where
  "ms_split index m =
     (if (\<exists>c \<in> set (chunks m). cstart c = index \<or> cend c = index) then Inr m
      else (case split_chunks index (chunks m) of
              Inl err \<Rightarrow> Inl err
            | Inr cs \<Rightarrow> Inr (m\<lparr>chunks := cs\<rparr>)))"

text \<open>
  \<^verbatim>\<open>prependLeft(index, content)\<close> puts the content in front of the outro of the chunk that
  ends at the index, or in front of the intro of the buffer when no chunk ends there;
  \<^verbatim>\<open>appendRight(index, content)\<close> puts it behind the intro of the chunk that starts at the
  index, or behind the outro of the buffer.
\<close>

definition prependLeft :: "nat \<Rightarrow> string \<Rightarrow> magic_string \<Rightarrow> error + magic_string" where
  "prependLeft index content m =
     (case ms_split index m of
        Inl err \<Rightarrow> Inl err
      | Inr m' \<Rightarrow>
          if (\<exists>c \<in> set (chunks m'). cend c = index)
          then Inr (m'\<lparr>chunks := map (\<lambda>c. if cend c = index then c\<lparr>coutro := content @ coutro c\<rparr> else c)
                                    (chunks m')\<rparr>)
          else Inr (m'\<lparr>intro := content @ intro m'\<rparr>))"

definition appendRight :: "nat \<Rightarrow> string \<Rightarrow> magic_string \<Rightarrow> error + magic_string" where
  "appendRight index content m =
     (case ms_split index m of
        Inl err \<Rightarrow> Inl err
      | Inr m' \<Rightarrow>
          if (\<exists>c \<in> set (chunks m'). cstart c = index)
          then Inr (m'\<lparr>chunks := map (\<lambda>c. if cstart c = index then c\<lparr>cintro := cintro c @ content\<rparr> else c)
                                    (chunks m')\<rparr>)
          else Inr (m'\<lparr>outro := outro m' @ content\<rparr>))"

definition prepend :: "string \<Rightarrow> magic_string \<Rightarrow> magic_string" where
  "prepend content m = m\<lparr>intro := content @ intro m\<rparr>"

text \<open>
  \<^verbatim>\<open>overwrite(start, end, content)\<close>: the range must end inside the original text and must
  not be empty; both ends are split; the chunk that starts at \<open>start\<close> takes the content
  and loses its intro and outro, and every later chunk up to \<open>end\<close> is edited to the empty
  content. A range with its end before its start is not the range of a parsed node; the
  library then walks the chain of chunks past its end, and the call is a failure here.
\<close>

definition edit_range :: "nat \<Rightarrow> nat \<Rightarrow> string \<Rightarrow> ms_chunk \<Rightarrow> ms_chunk" where
  "edit_range a b content c =
     (if cstart c = a then c\<lparr>cintro := [], coutro := [], cedit := Some content\<rparr>
      else if a < cstart c \<and> cend c \<le> b then c\<lparr>cintro := [], coutro := [], cedit := Some []\<rparr>
      else c)"

definition overwrite :: "nat \<Rightarrow> nat \<Rightarrow> string \<Rightarrow> magic_string \<Rightarrow> error + magic_string" where
  "overwrite a b content m =
     (if b > length (original m) then Inl (Error ''end is out of bounds'')
      else if a = b then Inl (Error ''Cannot overwrite a zero-length range'')
      else if a > b then Inl (TypeError ''Cannot read properties of null (reading edit)'')
      else (case ms_split a m of
              Inl err \<Rightarrow> Inl err
            | Inr m1 \<Rightarrow>
                (case ms_split b m1 of
                   Inl err \<Rightarrow> Inl err
                 | Inr m2 \<Rightarrow> Inr (m2\<lparr>chunks := map (edit_range a b content) (chunks m2)\<rparr>))))"

section \<open>Pass 1: the transform hook\<close>

text \<open>
  The parser is rollup's \<^verbatim>\<open>this.parse\<close> and is a parameter: it returns the tree, or throws,
  and the warning quotes the text of what it threw. \<^verbatim>\<open>this.warn\<close> appends to the warnings
  of the build.
\<close>

type_synonym parser = "string \<Rightarrow> string + node"

record warning =
  wcode :: string
  message :: string

definition parse_warning :: "string \<Rightarrow> string \<Rightarrow> warning" where
  "parse_warning name err =
     \<lparr>wcode = ''PARSE_ERROR'',
      message = ''rollup-plugin-hoist-import-deps: failed to parse '' @ name @ ''.'' @ [CHR 0x0A] @ err\<rparr>"

text \<open>
  \<^verbatim>\<open>code.match(/import\s*\([^\)]+\)/)\<close>, line 154: somewhere in the text, \<^verbatim>\<open>import\<close>, white
  space, an opening parenthesis, at least one character that is not a closing parenthesis,
  and a closing parenthesis. Both repetitions are followed by a character they exclude, so
  the longest repetition decides the match. The white space of \<^verbatim>\<open>\s\<close> below 256 is
  listed.
\<close>

definition is_space :: "char \<Rightarrow> bool" where
  "is_space c = (c \<in> set [CHR 0x09, CHR 0x0A, CHR 0x0B, CHR 0x0C, CHR 0x0D, CHR 0x20, CHR 0xA0])"

definition firstpass_here :: "string \<Rightarrow> bool" where
  "firstpass_here s =
     (startsWith s ''import'' \<and>
      (case dropWhile is_space (drop 6 s) of
         [] \<Rightarrow> False
       | c # r \<Rightarrow> c = CHR ''('' \<and> takeWhile (\<lambda>x. x \<noteq> CHR '')'') r \<noteq> []
                  \<and> dropWhile (\<lambda>x. x \<noteq> CHR '')'') r \<noteq> []))"

fun firstpass :: "string \<Rightarrow> bool" where
  "firstpass [] = False"
| "firstpass (c # cs) = (firstpass_here (c # cs) \<or> firstpass cs)"

definition loader_import :: string where
  "loader_import =
     ''import {__loadDeps} from '' @ [CHR 0x27] @ VIRTUAL_ID_IMPORT @ [CHR 0x27] @ '';'' @ [CHR 0x0A]"

definition wrap_open :: string where
  "wrap_open = ''__loadDeps(''"

definition wrap_close :: string where
  "wrap_close = '', '' @ MARKER @ '')''"

text \<open>The \<^verbatim>\<open>enter\<close> callback of lines 175 to 181, on the buffer and \<^verbatim>\<open>hasDynamicImport\<close>.\<close>

definition transform_enter :: "visit \<Rightarrow> magic_string \<times> bool \<Rightarrow> error + magic_string \<times> bool" where
  "transform_enter v st =
     (if is_ImportExpression (fst v)
      then (case prependLeft (nstart (fst v)) wrap_open (fst st) of
              Inl err \<Rightarrow> Inl err
            | Inr m1 \<Rightarrow>
                (case appendRight (nend (fst v)) wrap_close m1 of
                   Inl err \<Rightarrow> Inl err
                 | Inr m2 \<Rightarrow> Inr (m2, True)))
      else Inr st)"

text \<open>
  \<^verbatim>\<open>transform(code, id)\<close>, lines 149 to 193. The result is \<open>None\<close> for \<^verbatim>\<open>null\<close> (the unit
  is left as it is) or the new code; the source map is not modelled.
\<close>

definition transform :: "parser \<Rightarrow> string \<Rightarrow> string \<Rightarrow> warning list \<Rightarrow> error + string option \<times> warning list" where
  "transform parse src ident ws =
     (if ident = VIRTUAL_ID_IMPORT then Inr (None, ws)
      else if \<not> firstpass src then Inr (None, ws)
      else (case parse src of
              Inl err \<Rightarrow> Inr (None, ws @ [parse_warning ident err])
            | Inr ast \<Rightarrow>
                (case walk ast transform_enter (MagicString src, False) of
                   Inl e \<Rightarrow> Inl e
                 | Inr (m, hasDynamicImport) \<Rightarrow>
                     if \<not> hasDynamicImport then Inr (None, ws)
                     else Inr (Some (toString (prepend loader_import m)), ws))))"

section \<open>Pass 2: the generateBundle hook\<close>

text \<open>
  The inner walk of lines 245 to 251 starts from \<^verbatim>\<open>importChunkName = null\<close> and assigns the
  value of every literal it enters.
\<close>

fun literal_value :: "jsval \<Rightarrow> visit \<Rightarrow> jsval" where
  "literal_value acc (Literal s e v r, p) = v"
| "literal_value acc _ = acc"

definition find_chunk_name :: "node \<Rightarrow> jsval" where
  "find_chunk_name importExpr = foldl literal_value JNull (visits None importExpr)"

text \<open>\<^verbatim>\<open>parent.arguments[0]\<close>, line 235: only a node with an \<^verbatim>\<open>arguments\<close> array has one.\<close>

fun first_argument :: "node option \<Rightarrow> error + node option" where
  "first_argument (Some (Call s e c [])) = Inr None"
| "first_argument (Some (Call s e c (a # args))) = Inr (Some a)"
| "first_argument (Some _) = Inl (TypeError ''Cannot read properties of undefined (reading 0)'')"
| "first_argument None = Inl (TypeError ''Cannot read properties of null (reading arguments)'')"

text \<open>\<^verbatim>\<open>importExpr.source ? importExpr.source.value : null\<close>, line 242.\<close>

fun source_value :: "node option \<Rightarrow> jsval" where
  "source_value None = JNull"
| "source_value (Some (Literal s e v r)) = v"
| "source_value (Some _) = JUndefined"

fun import_chunk_name :: "node \<Rightarrow> jsval" where
  "import_chunk_name (ImportExpression s e src rest) = source_value src"
| "import_chunk_name importExpr = find_chunk_name importExpr"

text \<open>
  The text of \<^verbatim>\<open>`"${importChunkName}"`\<close>, line 254. For a value that is not a string the
  text is never read: \<^verbatim>\<open>getDeps\<close> throws on the next line and the buffer is dropped.
\<close>

fun template_str :: "jsval \<Rightarrow> string" where
  "template_str (JStr s) = s"
| "template_str (JBool b) = (if b then ''true'' else ''false'')"
| "template_str JNull = ''null''"
| "template_str JUndefined = ''undefined''"
| "template_str _ = []"

definition quoted :: "jsval \<Rightarrow> string" where
  \<open>quoted v = ''"'' @ template_str v @ ''"''\<close>

text \<open>The \<^verbatim>\<open>enter\<close> callback of lines 232 to 258.\<close>

definition finalize_enter :: "options \<Rightarrow> output_bundle \<Rightarrow> visit \<Rightarrow> magic_string \<Rightarrow> error + magic_string" where
  "finalize_enter opts bundle v m =
     (if is_marker (fst v)
      then (case first_argument (snd v) of
              Inl err \<Rightarrow> Inl err
            | Inr None \<Rightarrow> Inr m
            | Inr (Some importExpr) \<Rightarrow>
                (let importChunkName = import_chunk_name importExpr
                 in if truthy importChunkName
                    then (case overwrite (nstart importExpr) (nend importExpr) (quoted importChunkName) m of
                            Inl err \<Rightarrow> Inl err
                          | Inr m1 \<Rightarrow>
                              (case getDeps opts importChunkName bundle of
                                 Inl err \<Rightarrow> Inl err
                               | Inr deps \<Rightarrow> overwrite (nstart (fst v)) (nend (fst v)) deps m1))
                    else Inr m))
      else Inr m)"

text \<open>
  \<^verbatim>\<open>generateBundle(_, bundle)\<close>, lines 207 to 265: the loop over \<^verbatim>\<open>Object.keys(bundle)\<close>.
  The entries already visited (with their new code) and the entries still to visit are
  the bundle that \<^verbatim>\<open>getDeps\<close> reads. The keys of an object are distinct.
\<close>

fun generateBundle_loop ::
  "parser \<Rightarrow> options \<Rightarrow> output_bundle \<Rightarrow> output_bundle \<Rightarrow> warning list \<Rightarrow> error + output_bundle \<times> warning list" where
  "generateBundle_loop parse opts seen [] ws = Inr (seen, ws)"
| "generateBundle_loop parse opts seen ((chunkName, OutputAsset a) # todo) ws =
     generateBundle_loop parse opts (seen @ [(chunkName, OutputAsset a)]) todo ws"
| "generateBundle_loop parse opts seen ((chunkName, OutputChunk ch) # todo) ws =
     (if length (dynamicImports ch) = 0
      then generateBundle_loop parse opts (seen @ [(chunkName, OutputChunk ch)]) todo ws
      else (case parse (code ch) of
              Inl err \<Rightarrow>
                generateBundle_loop parse opts (seen @ [(chunkName, OutputChunk ch)]) todo
                  (ws @ [parse_warning (fileName ch) err])
            | Inr ast \<Rightarrow>
                (case walk ast (finalize_enter opts (seen @ (chunkName, OutputChunk ch) # todo))
                        (MagicString (code ch)) of
                   Inl e \<Rightarrow> Inl e
                 | Inr m \<Rightarrow>
                     generateBundle_loop parse opts
                       (seen @ [(chunkName, OutputChunk (ch\<lparr>code := toString m\<rparr>))]) todo ws)))"

definition generateBundle :: "parser \<Rightarrow> options \<Rightarrow> output_bundle \<Rightarrow> warning list \<Rightarrow> error + output_bundle \<times> warning list" where
  "generateBundle parse opts bundle ws = generateBundle_loop parse opts [] bundle ws"

section \<open>What the claims speak of\<close>

text \<open>
  The dynamic-load expressions of a unit, the literal values below a node and the marker
  literals of a chunk, each in the order in which the walker enters them.
\<close>

definition import_sites :: "node \<Rightarrow> node list" where
  "import_sites ast = filter is_ImportExpression (map fst (visits None ast))"

definition literal_values :: "node \<Rightarrow> jsval list" where
  "literal_values e =
     concat (map (\<lambda>v. case fst v of Literal s e' x r \<Rightarrow> [x] | _ \<Rightarrow> []) (visits None e))"




text \<open>
  The text of a unit with a wrapper around each of the given nodes: in front of the
  character at offset \<open>i\<close> stands one \<^verbatim>\<open>__loadDeps(\<close> for every node that starts at \<open>i\<close>
  and one \<^verbatim>\<open>, "__IMPORT_DEPS__")\<close> for every node that ends at \<open>i\<close>; the characters of
  the unit follow one another as before.
\<close>

definition opened_at :: "node list \<Rightarrow> nat \<Rightarrow> string" where
  "opened_at sites i = concat (replicate (length (filter (\<lambda>n. nstart n = i) sites)) wrap_open)"

definition closed_at :: "node list \<Rightarrow> nat \<Rightarrow> string" where
  "closed_at sites i = concat (replicate (length (filter (\<lambda>n. nend n = i) sites)) wrap_close)"

definition wrapped :: "string \<Rightarrow> node list \<Rightarrow> string" where
  "wrapped src sites =
     concat (map (\<lambda>i. opened_at sites i @ closed_at sites i @ (if i < length src then [src ! i] else []))
                 [0..<Suc (length src)])"


text \<open>
  What the callback of pass 2 asks of the buffer when it enters a node: nothing
  (\<open>Skip\<close>: no marker literal, no first argument, or no load target recovered); the two
  overwrites of lines 254 and 255 (\<open>Rewrite\<close>: the range of the first argument, the load
  target, the range of the marker literal and the dependency text that replaces it); or an
  exception (\<open>Throw\<close>: line 235 on a parent without \<^verbatim>\<open>arguments\<close>, or \<^verbatim>\<open>getDeps\<close> on a load
  target that is not a string or that names an asset).
\<close>

type_synonym site = "nat \<times> nat \<times> string \<times> nat \<times> nat \<times> string"

datatype action = Skip | Rewrite site | Throw

definition action_of :: "options \<Rightarrow> output_bundle \<Rightarrow> visit \<Rightarrow> action" where
  "action_of opts graph v =
     (if is_marker (fst v)
      then (case first_argument (snd v) of
              Inl err \<Rightarrow> Throw
            | Inr None \<Rightarrow> Skip
            | Inr (Some importExpr) \<Rightarrow>
                (case import_chunk_name importExpr of
                   JStr t \<Rightarrow>
                     if t = [] then Skip
                     else (case getDeps opts (JStr t) graph of
                             Inl err \<Rightarrow> Throw
                           | Inr deps \<Rightarrow>
                               Rewrite (nstart importExpr, nend importExpr, t,
                                        nstart (fst v), nend (fst v), deps))
                 | x \<Rightarrow> if truthy x then Throw else Skip))
      else Skip)"









text \<open>
  A text occurs in another when the other has it at some offset. The name of the marker is
  the text of the marker literal without its quotes.
\<close>

fun occurs :: "string \<Rightarrow> string \<Rightarrow> bool" where
  "occurs p [] = (p = [])"
| "occurs p (x # xs) = (startsWith (x # xs) p \<or> occurs p xs)"





section \<open>The edit buffer, position by position\<close>

text \<open>
  While a buffer has only taken insertions, its chunks are unedited and cover the original
  text without a hole (\<open>contig\<close>). What was inserted in front of the character at offset
  \<open>i\<close> is then the outro of the chunk that ends at \<open>i\<close> followed by the intro of the chunk
  that starts there, with the intro of the buffer in front at offset 0 and its outro behind
  at the end of the text (\<open>gap\<close>); \<open>render\<close> writes the text out from these gaps.
\<close>

fun contig :: "nat \<Rightarrow> ms_chunk list \<Rightarrow> nat \<Rightarrow> bool" where
  "contig a [] b = (a = b)"
| "contig a (c # cs) b = (cstart c = a \<and> a < cend c \<and> cedit c = None \<and> contig (cend c) cs b)"

fun outro_at :: "nat \<Rightarrow> ms_chunk list \<Rightarrow> string" where
  "outro_at i [] = []"
| "outro_at i (c # cs) = (if cend c = i then coutro c else outro_at i cs)"

fun intro_at :: "nat \<Rightarrow> ms_chunk list \<Rightarrow> string" where
  "intro_at i [] = []"
| "intro_at i (c # cs) = (if cstart c = i then cintro c else intro_at i cs)"

definition gap :: "magic_string \<Rightarrow> nat \<Rightarrow> string" where
  "gap m i = (if i = 0 then intro m else []) @ outro_at i (chunks m) @ intro_at i (chunks m)
             @ (if i = length (original m) then outro m else [])"

definition seg :: "string \<Rightarrow> (nat \<Rightarrow> string) \<Rightarrow> nat \<Rightarrow> nat \<Rightarrow> string" where
  "seg src g x y = concat (map (\<lambda>i. g i @ [src ! i]) [x..<y])"

definition render :: "string \<Rightarrow> (nat \<Rightarrow> string) \<Rightarrow> string" where
  "render src g = seg src g 0 (length src) @ g (length src)"

definition inv :: "magic_string \<Rightarrow> bool" where
  "inv m = (original m \<noteq> [] \<and> contig 0 (chunks m) (length (original m)))"





section \<open>Example inputs\<close>

definition ex_opts_preload :: options where
  "ex_opts_preload = \<lparr>hoist_method = JStr ''preload'', setAnonymousCrossOrigin = JBool True,
     anononymousCrossOrigin = JUndefined, baseUrl = JNull, customPreload = JUndefined\<rparr>"

definition ex_opts_import :: options where
  "ex_opts_import = \<lparr>hoist_method = JStr ''import'', setAnonymousCrossOrigin = JBool True,
     anononymousCrossOrigin = JUndefined, baseUrl = JNull, customPreload = JUndefined\<rparr>"

text \<open>A graph in which \<^verbatim>\<open>a.js\<close> statically imports \<^verbatim>\<open>b.js\<close> and \<^verbatim>\<open>c.js\<close>.\<close>

definition ex_graph :: output_bundle where
  "ex_graph =
     [(''a.js'', OutputChunk \<lparr>fileName = ''a.js'', code = ''import './b.js'; import './c.js';'',
                              chunk_imports = [''b.js'', ''c.js''], dynamicImports = []\<rparr>)]"

text \<open>An options object that sets \<^verbatim>\<open>setAnonymousCrossOrigin: true\<close> and nothing else.\<close>

definition ex_user_options :: options where
  "ex_user_options = no_options\<lparr>setAnonymousCrossOrigin := JBool True\<rparr>"

text \<open>
  The first argument of the wrapper call in CommonJS output for
  \<^verbatim>\<open>import(c ? './a.js' : './b.js')\<close>, that is
  \<^verbatim>\<open>Promise.resolve().then(function () { return require(c ? './a.js' : './b.js'); })\<close>
  at offset 11 of the chunk.
\<close>

definition ex_wrapped_load :: node where
  "ex_wrapped_load =
     Call 11 91
       (Other 11 33 [Call 11 28 (Other 11 26 [Other 11 18 [], Other 19 26 []]) [], Other 29 33 []])
       [Other 34 90 [Other 46 90 [Other 48 88
          [Call 55 87 (Other 55 62 [])
             [Other 63 86 [Other 63 64 [],
                           Literal 67 75 (JStr ''./a.js'') [CHR 0x27, CHR ''.'', CHR ''/'', CHR ''a'', CHR ''.'', CHR ''j'', CHR ''s'', CHR 0x27],
                           Literal 78 86 (JStr ''./b.js'') [CHR 0x27, CHR ''.'', CHR ''/'', CHR ''b'', CHR ''.'', CHR ''j'', CHR ''s'', CHR 0x27]]]]]]]"

text \<open>
  The texts of the examples and their trees. \<^verbatim>\<open>f("import(x)")\<close> has the text of a dynamic
  load inside a string literal only.
\<close>

definition ex_src_string :: string where
  \<open>ex_src_string = ''f("import(x)")''\<close>

definition ex_ast_string :: node where
  \<open>ex_ast_string =
     Other 0 14 [Other 0 14 [Call 0 14 (Other 0 1 []) [Literal 2 13 (JStr ''import(x)'') ''"import(x)"'']]]\<close>

text \<open>
  \<^verbatim>\<open>__loadDeps(import("./target.js"), "__IMPORT_DEPS__")\<close>: a wrapper call as pass 1 writes
  it, in module-preserving output; the same without the blank after the comma, as a
  minifier leaves it.
\<close>

definition ex_src_esm :: string where
  \<open>ex_src_esm = ''__loadDeps(import("./target.js"), "__IMPORT_DEPS__")''\<close>

definition ex_ast_esm :: node where
  \<open>ex_ast_esm =
     Other 0 52 [Other 0 52 [Call 0 52 (Other 0 10 [])
       [ImportExpression 11 32 (Some (Literal 18 31 (JStr ''./target.js'') ''"./target.js"'')) [],
        Literal 34 51 (JStr ''__IMPORT_DEPS__'') MARKER]]]\<close>

definition ex_src_esm_min :: string where
  \<open>ex_src_esm_min = ''__loadDeps(import("./target.js"),"__IMPORT_DEPS__")''\<close>

definition ex_ast_esm_min :: node where
  \<open>ex_ast_esm_min =
     Other 0 51 [Other 0 51 [Call 0 51 (Other 0 10 [])
       [ImportExpression 11 32 (Some (Literal 18 31 (JStr ''./target.js'') ''"./target.js"'')) [],
        Literal 33 50 (JStr ''__IMPORT_DEPS__'') MARKER]]]\<close>

text \<open>\<^verbatim>\<open>import("./a.js").then(m => import("./b.js"));\<close>: a source unit with two dynamic loads.\<close>

definition ex_src_pass1 :: string where
  \<open>ex_src_pass1 = ''import("./a.js").then(m => import("./b.js"));''\<close>

definition ex_ast_pass1 :: node where
  \<open>ex_ast_pass1 =
     Other 0 45 [Other 0 45 [Call 0 44
       (Other 0 21 [ImportExpression 0 16 (Some (Literal 7 15 (JStr ''./a.js'') ''"./a.js"'')) [],
                    Other 17 21 []])
       [Other 22 43 [Other 22 23 [],
                     ImportExpression 27 43 (Some (Literal 34 42 (JStr ''./b.js'') ''"./b.js"'')) []]]]]\<close>

text \<open>\<^verbatim>\<open>import/**/("./a.js")\<close>: a dynamic load with a comment between its first two tokens.\<close>

definition ex_src_comment :: string where
  \<open>ex_src_comment = ''import/**/("./a.js")''\<close>

definition ex_ast_comment :: node where
  \<open>ex_ast_comment =
     Other 0 20 [Other 0 20
       [ImportExpression 0 20 (Some (Literal 11 19 (JStr ''./a.js'') ''"./a.js"'')) []]]\<close>

text \<open>
  A wrapper call around the load of a module whose name is the text of the marker, and
  what pass 2 makes of it.
\<close>

definition ex_src_named_marker :: string where
  \<open>ex_src_named_marker =
     ''__loadDeps(import('' @ [CHR 0x27] @ ''__IMPORT_DEPS__'' @ [CHR 0x27] @ ''), "__IMPORT_DEPS__")''\<close>

definition ex_ast_named_marker :: node where
  \<open>ex_ast_named_marker =
     Other 0 56 [Other 0 56 [Call 0 56 (Other 0 10 [])
       [ImportExpression 11 36
          (Some (Literal 18 35 (JStr ''__IMPORT_DEPS__'') ([CHR 0x27] @ ''__IMPORT_DEPS__'' @ [CHR 0x27]))) [],
        Literal 38 55 (JStr ''__IMPORT_DEPS__'') MARKER]]]\<close>

definition ex_src_finalized_marker :: string where
  \<open>ex_src_finalized_marker = ''__loadDeps("__IMPORT_DEPS__", )''\<close>

definition ex_ast_finalized_marker :: node where
  \<open>ex_ast_finalized_marker =
     Other 0 31 [Other 0 31 [Call 0 31 (Other 0 10 [])
       [Literal 11 28 (JStr ''__IMPORT_DEPS__'') MARKER]]]\<close>

text \<open>
  \<^verbatim>\<open>var s = "__IMPORT_DEPS__"; __loadDeps(import("./x.js"), "__IMPORT_DEPS__");\<close>: a chunk
  in which the text of the marker is also an ordinary string of the program.
\<close>

definition ex_src_var :: string where
  \<open>ex_src_var = ''var s = "__IMPORT_DEPS__"; __loadDeps(import("./x.js"), "__IMPORT_DEPS__");''\<close>

definition ex_ast_var :: node where
  \<open>ex_ast_var =
     Other 0 75
       [Other 0 26 [Other 4 25 [Other 4 5 [], Literal 8 25 (JStr ''__IMPORT_DEPS__'') MARKER]],
        Other 27 75 [Call 27 74 (Other 27 37 [])
          [ImportExpression 38 54 (Some (Literal 45 53 (JStr ''./x.js'') ''"./x.js"'')) [],
           Literal 56 73 (JStr ''__IMPORT_DEPS__'') MARKER]]]\<close>


text \<open>\<^verbatim>\<open>__loadDeps("./target.js", "./a.js","./b.js")\<close>: a call that pass 2 has rewritten.\<close>

definition ex_src_esm_final :: string where
  \<open>ex_src_esm_final = ''__loadDeps("./target.js", "./a.js","./b.js")''\<close>

definition ex_ast_esm_final :: node where
  \<open>ex_ast_esm_final =
     Other 0 44 [Other 0 44 [Call 0 44 (Other 0 10 [])
       [Literal 11 24 (JStr ''./target.js'') ''"./target.js"'',
        Literal 26 34 (JStr ''./a.js'') ''"./a.js"'',
        Literal 35 43 (JStr ''./b.js'') ''"./b.js"'']]]\<close>

text \<open>A chunk with two wrapper calls, and what pass 2 makes of it.\<close>

definition ex_src_two :: string where
  \<open>ex_src_two =
     ''__loadDeps(import("./target.js"), "__IMPORT_DEPS__");__loadDeps(import("./a.js"), "__IMPORT_DEPS__");''\<close>

definition ex_ast_two :: node where
  \<open>ex_ast_two =
     Other 0 101
       [Other 0 53 [Call 0 52 (Other 0 10 [])
          [ImportExpression 11 32 (Some (Literal 18 31 (JStr ''./target.js'') ''"./target.js"'')) [],
           Literal 34 51 (JStr ''__IMPORT_DEPS__'') MARKER]],
        Other 53 101 [Call 53 100 (Other 53 63 [])
          [ImportExpression 64 80 (Some (Literal 71 79 (JStr ''./a.js'') ''"./a.js"'')) [],
           Literal 82 99 (JStr ''__IMPORT_DEPS__'') MARKER]]]\<close>


text \<open>The parser of the examples knows these texts and throws on any other text.\<close>

definition ex_parse :: parser where
  "ex_parse src =
     (if src = ex_src_string then Inr ex_ast_string
      else if src = ex_src_esm then Inr ex_ast_esm
      else if src = ex_src_esm_min then Inr ex_ast_esm_min
      else if src = ex_src_pass1 then Inr ex_ast_pass1
      else if src = ex_src_comment then Inr ex_ast_comment
      else if src = ex_src_named_marker then Inr ex_ast_named_marker
      else if src = ex_src_finalized_marker then Inr ex_ast_finalized_marker
      else if src = ex_src_var then Inr ex_ast_var
      else if src = ex_src_esm_final then Inr ex_ast_esm_final
      else if src = ex_src_two then Inr ex_ast_two
      else Inl ''SyntaxError: Unexpected token'')"

text \<open>Bundles: the chunk \<^verbatim>\<open>target.js\<close> with two static imports, and with none.\<close>

definition ex_chunk :: "string \<Rightarrow> string \<Rightarrow> string list \<Rightarrow> string list \<Rightarrow> string \<times> bundle_entry" where
  "ex_chunk name src static dynamic =
     (name, OutputChunk \<lparr>fileName = name, code = src, chunk_imports = static, dynamicImports = dynamic\<rparr>)"












definition ex_bundle_var :: output_bundle where
  "ex_bundle_var =
     [ex_chunk ''main.js'' ex_src_var [] [''x.js''],
      ex_chunk ''x.js'' ''export const x = 1;'' [] []]"









section \<open>Strings\<close>

lemma startsWith_iff: "startsWith s p = (\<exists>u. s = p @ u)"
proof
  assume "startsWith s p"
  then have "s = p @ drop (length p) s"
    by (metis append_take_drop_id startsWith_def)
  then show "\<exists>u. s = p @ u" ..
next
  assume "\<exists>u. s = p @ u"
  then show "startsWith s p" by (auto simp: startsWith_def)
qed

lemma endsWith_iff: "endsWith s p = (\<exists>u. s = u @ p)"
proof
  assume "endsWith s p"
  then have "s = take (length s - length p) s @ p"
    by (metis append_take_drop_id endsWith_def)
  then show "\<exists>u. s = u @ p" ..
next
  assume "\<exists>u. s = u @ p"
  then show "endsWith s p" by (auto simp: endsWith_def)
qed

lemma endsWith_append: "endsWith (s @ p) p"
  by (simp add: endsWith_def)

lemma endsWith_of_drop:
  assumes "endsWith (drop n s) p"
  shows "endsWith s p"
proof -
  from assms obtain u where "drop n s = u @ p" by (auto simp: endsWith_iff)
  then have "s = (take n s @ u) @ p" by (metis append_take_drop_id append.assoc)
  then show ?thesis unfolding endsWith_iff ..
qed

lemma startsWith_dot_slash_js: "startsWith (Y @ ''.js'') ''./'' = startsWith Y ''./''"
proof (cases Y)
  case Nil
  then show ?thesis by (simp add: startsWith_def)
next
  case (Cons a Y')
  then show ?thesis by (cases Y') (auto simp: startsWith_def)
qed

lemma strip_prefix_js:
  "(if startsWith (Y @ ''.js'') ''./'' then drop 2 (Y @ ''.js'') else Y @ ''.js'')
   = (if startsWith Y ''./'' then drop 2 Y else Y) @ ''.js''"
proof (cases "startsWith Y ''./''")
  case True
  then obtain u where "Y = ''./'' @ u" by (auto simp: startsWith_iff)
  then show ?thesis using True by (simp add: startsWith_def)
next
  case False
  then show ?thesis by (simp add: startsWith_dot_slash_js)
qed

lemma occurs_iff: "occurs p xs \<longleftrightarrow> (\<exists>a b. xs = a @ p @ b)"
proof (induction xs)
  case Nil
  show ?case by auto
next
  case (Cons x xs)
  show ?case
  proof
    assume "occurs p (x # xs)"
    then consider "startsWith (x # xs) p" | "occurs p xs" by auto
    then show "\<exists>a b. x # xs = a @ p @ b"
    proof cases
      case 1
      then obtain u where "x # xs = p @ u" by (auto simp: startsWith_iff)
      then have "x # xs = [] @ p @ u" by simp
      then show ?thesis by blast
    next
      case 2
      with Cons.IH obtain a b where "xs = a @ p @ b" by blast
      then have "x # xs = (x # a) @ p @ b" by simp
      then show ?thesis by blast
    qed
  next
    assume "\<exists>a b. x # xs = a @ p @ b"
    then obtain a b where ab: "x # xs = a @ p @ b" by blast
    show "occurs p (x # xs)"
    proof (cases a)
      case Nil
      with ab have "startsWith (x # xs) p" by (auto simp: startsWith_iff)
      then show ?thesis by simp
    next
      case (Cons y a')
      with ab have "xs = a' @ p @ b" by simp
      with Cons.IH have "occurs p xs" by blast
      then show ?thesis by simp
    qed
  qed
qed

lemma occurs_mid: "occurs p (a @ p @ b)"
  unfolding occurs_iff by blast

lemma occurs_append_left: "occurs p xs \<Longrightarrow> occurs p (xs @ ys)"
proof -
  assume "occurs p xs"
  then obtain a b where "xs = a @ p @ b" unfolding occurs_iff by blast
  then have "xs @ ys = a @ p @ (b @ ys)" by simp
  then show ?thesis unfolding occurs_iff by blast
qed

lemma occurs_append_right: "occurs p ys \<Longrightarrow> occurs p (xs @ ys)"
proof -
  assume "occurs p ys"
  then obtain a b where "ys = a @ p @ b" unfolding occurs_iff by blast
  then have "xs @ ys = (xs @ a) @ p @ b" by simp
  then show ?thesis unfolding occurs_iff by blast
qed

lemma occurs_sep:
  assumes "c \<notin> set p"
  shows "occurs p (xs @ c # ys) \<longleftrightarrow> occurs p xs \<or> occurs p ys"
proof
  assume "occurs p (xs @ c # ys)"
  then obtain a b where ab: "xs @ c # ys = a @ p @ b" unfolding occurs_iff by blast
  show "occurs p xs \<or> occurs p ys"
  proof (cases "length (a @ p) \<le> length xs")
    case True
    from ab have "take (length (a @ p)) (xs @ c # ys) = a @ p" by simp
    with True have "take (length (a @ p)) xs = a @ p" by simp
    then have "xs = a @ p @ drop (length (a @ p)) xs"
      by (metis append_take_drop_id append.assoc)
    then show ?thesis unfolding occurs_iff by blast
  next
    case False
    then have l: "length xs < length a + length p" by simp
    have "length xs < length a"
    proof (rule ccontr)
      assume "\<not> length xs < length a"
      with l have i: "length a \<le> length xs" "length xs - length a < length p" by simp_all
      have "(xs @ c # ys) ! length xs = c" by simp
      moreover have "(a @ p @ b) ! length xs = p ! (length xs - length a)"
        using i by (simp add: nth_append)
      ultimately have "c = p ! (length xs - length a)" using ab by simp
      with i(2) assms show False by (metis nth_mem)
    qed
    then have "drop (Suc (length xs)) a @ p @ b = drop (Suc (length xs)) (a @ p @ b)" by simp
    also have "\<dots> = drop (Suc (length xs)) (xs @ c # ys)" using ab by simp
    also have "\<dots> = ys" by simp
    finally have "ys = drop (Suc (length xs)) a @ p @ b" by simp
    then show ?thesis unfolding occurs_iff by blast
  qed
next
  assume "occurs p xs \<or> occurs p ys"
  then show "occurs p (xs @ c # ys)"
  proof
    assume "occurs p xs"
    then show ?thesis by (rule occurs_append_left)
  next
    assume "occurs p ys"
    then have "occurs p ((xs @ [c]) @ ys)" by (rule occurs_append_right)
    then show ?thesis by simp
  qed
qed

lemma occurs_join_iff:
  assumes "c \<notin> set p" and "p \<noteq> []"
  shows "occurs p (join [c] xs) \<longleftrightarrow> (\<exists>x\<in>set xs. occurs p x)"
proof (induction "[c]" xs rule: join.induct)
  case 1
  from assms(2) show ?case by simp
next
  case (2 x)
  show ?case by simp
next
  case (3 x y ys)
  have "occurs p (join [c] (x # y # ys)) \<longleftrightarrow> occurs p (x @ c # join [c] (y # ys))" by simp
  also have "\<dots> \<longleftrightarrow> occurs p x \<or> occurs p (join [c] (y # ys))" by (rule occurs_sep [OF assms(1)])
  finally show ?case using 3 by simp
qed

section \<open>The dependency name resolver: reference forms\<close>

lemma getDeps_eqI:
  assumes "(if startsWith cn ''./'' then drop 2 cn else cn) = n"
    and "(if startsWith cn' ''./'' then drop 2 cn' else cn') = n'"
    and "(if \<not> endsWith n ''.js'' then n @ ''.js'' else n) = (if \<not> endsWith n' ''.js'' then n' @ ''.js'' else n')"
    and "quote_dep opts (\<not> endsWith n ''.js'') = quote_dep opts (\<not> endsWith n' ''.js'')"
  shows "getDeps opts (JStr cn) bundle = getDeps opts (JStr cn') bundle"
  unfolding getDeps_def jsval.case Let_def assms(1) assms(2) assms(3) assms(4) ..

lemma getDeps_relative_prefix:
  "\<not> startsWith X ''./'' \<Longrightarrow> getDeps opts (JStr (''./'' @ X)) bundle = getDeps opts (JStr X) bundle"
  by (simp add: getDeps_def startsWith_def)

lemma getDeps_extensionless:
  assumes m: "hoist_method opts \<noteq> JStr ''import''" and e: "\<not> endsWith Y ''.js''"
  shows "getDeps opts (JStr Y) bundle = getDeps opts (JStr (Y @ ''.js'')) bundle"
proof (rule getDeps_eqI [OF refl strip_prefix_js])
  let ?n = "if startsWith Y ''./'' then drop 2 Y else Y"
  have ne: "\<not> endsWith ?n ''.js''" using e endsWith_of_drop by auto
  have ye: "endsWith (?n @ ''.js'') ''.js''" by (rule endsWith_append)
  show "(if \<not> endsWith ?n ''.js'' then ?n @ ''.js'' else ?n) =
        (if \<not> endsWith (?n @ ''.js'') ''.js'' then (?n @ ''.js'') @ ''.js'' else ?n @ ''.js'')"
    using ne ye by presburger
  show "quote_dep opts (\<not> endsWith ?n ''.js'') = quote_dep opts (\<not> endsWith (?n @ ''.js'') ''.js'')"
    using m by (auto simp: quote_dep_def fun_eq_iff)
qed

text \<open>
  Claim C6, as stated: for every identifier \<open>X\<close>, resolving \<open>X\<close>, \<open>./X\<close> and \<open>X\<close> without
  its \<^verbatim>\<open>.js\<close> extension gives the same dependency sequence. With \<^verbatim>\<open>method: 'import'\<close> the
  extension-less form \<^verbatim>\<open>a\<close> of \<^verbatim>\<open>a.js\<close> gets its dependencies without their extension,
  and the prefixed form of an identifier that already starts with \<^verbatim>\<open>./\<close> is looked up
  under another name.
\<close>

theorem getDeps_reference_forms_counterexample:
  \<open>getDeps ex_opts_import (JStr ''a.js'') ex_graph = Inr ''"./b.js","./c.js"''
   \<and> getDeps ex_opts_import (JStr ''a'') ex_graph = Inr ''"./b","./c"''
   \<and> getDeps ex_opts_preload (JStr ''./a.js'') ex_graph = Inr ''"./b.js","./c.js"''
   \<and> getDeps ex_opts_preload (JStr ''././a.js'') ex_graph = Inr []\<close>
  by (simp add: getDeps_def ex_opts_import_def ex_opts_preload_def ex_graph_def
      startsWith_def endsWith_def quote_dep_def)

text \<open>
  Claim C6, amended: an identifier \<open>X\<close> that does not start with \<^verbatim>\<open>./\<close> and its form
  \<open>./X\<close> resolve to the same dependency sequence; an identifier \<open>Y.js\<close> and its
  extension-less form \<open>Y\<close> (not itself ending in \<^verbatim>\<open>.js\<close>) resolve to the same dependency
  sequence when the method is not \<^verbatim>\<open>'import'\<close>.
\<close>

theorem getDeps_reference_forms:
  "(\<not> startsWith X ''./'' \<longrightarrow>
      getDeps opts (JStr (''./'' @ X)) bundle = getDeps opts (JStr X) bundle)
   \<and> (hoist_method opts \<noteq> JStr ''import'' \<and> \<not> endsWith Y ''.js'' \<longrightarrow>
      getDeps opts (JStr Y) bundle = getDeps opts (JStr (Y @ ''.js'')) bundle)"
  using getDeps_relative_prefix getDeps_extensionless by blast

theorem getDeps_reference_forms_witness:
  \<open>\<not> startsWith ''a.js'' ''./''
   \<and> getDeps ex_opts_preload (JStr ''./a.js'') ex_graph = getDeps ex_opts_preload (JStr ''a.js'') ex_graph
   \<and> hoist_method ex_opts_preload \<noteq> JStr ''import'' \<and> \<not> endsWith ''a'' ''.js''
   \<and> getDeps ex_opts_preload (JStr ''a'') ex_graph = getDeps ex_opts_preload (JStr ''a.js'') ex_graph
   \<and> getDeps ex_opts_preload (JStr ''a.js'') ex_graph = Inr ''"./b.js","./c.js"''\<close>
proof -
  have p: "\<not> startsWith ''a.js'' ''./''" by (simp add: startsWith_def)
  have m: "hoist_method ex_opts_preload \<noteq> JStr ''import''" by (simp add: ex_opts_preload_def)
  have e: "\<not> endsWith ''a'' ''.js''" by (simp add: endsWith_def)
  have v: \<open>getDeps ex_opts_preload (JStr ''a.js'') ex_graph = Inr ''"./b.js","./c.js"''\<close>
    by (simp add: getDeps_def ex_opts_preload_def ex_graph_def startsWith_def endsWith_def quote_dep_def)
  from getDeps_reference_forms [of "''a.js''" ex_opts_preload ex_graph "''a''"] p m e v
  show ?thesis by simp
qed

section \<open>Plugin setup: the cross-origin flag\<close>

lemma hoistImportDeps_custom:
  assumes "hoist_method ob = JStr ''custom''" and "customPreload ob \<noteq> JFunction"
  shows "hoistImportDeps (Some ob) = Inl (Error custom_error)"
  using assms by (simp add: hoistImportDeps_def Let_def)

lemma head_no_attr: "list_all (\<lambda>x. \<not> occurs ''crossOrigin: 'anonymous','' x) template_head"
  by code_simp

lemma tail_no_attr: "list_all (\<lambda>x. \<not> occurs ''crossOrigin: 'anonymous','' x) template_tail"
  by code_simp

lemma loader_template_occurs:
  "occurs ''crossOrigin: 'anonymous','' (loader_template stmt attr)
     \<longleftrightarrow> occurs ''crossOrigin: 'anonymous','' (''      '' @ stmt @ '';'')
          \<or> occurs ''crossOrigin: 'anonymous',''
               (''      Object.assign(el, { href: dep, rel: method, as: 'script', '' @ attr
                @ '' onload: () => { el.remove(); res({}); }, onerror: () => { el.remove(); rej(); }});'')"
proof -
  have c: "CHR 0x0A \<notin> set ''crossOrigin: 'anonymous',''" by simp
  have n: "''crossOrigin: 'anonymous','' \<noteq> []" by simp
  have h: "\<And>x. x \<in> set template_head \<Longrightarrow> \<not> occurs ''crossOrigin: 'anonymous','' x"
    using head_no_attr by (simp add: list_all_iff)
  have t: "\<And>x. x \<in> set template_tail \<Longrightarrow> \<not> occurs ''crossOrigin: 'anonymous','' x"
    using tail_no_attr by (simp add: list_all_iff)
  show ?thesis
    unfolding loader_template_def occurs_join_iff [OF c n] using h t by auto
qed

lemma attr_line_without:
  "\<not> occurs ''crossOrigin: 'anonymous',''
       (''      Object.assign(el, { href: dep, rel: method, as: 'script', '' @ []
        @ '' onload: () => { el.remove(); res({}); }, onerror: () => { el.remove(); rej(); }});'')"
  by code_simp

lemma stmt_line_occurs:
  "occurs ''crossOrigin: 'anonymous','' (''      '' @ baseUrlStmt opts @ '';'')
     \<longleftrightarrow> (\<exists>b. baseUrl opts = JStr b \<and> occurs ''crossOrigin: 'anonymous','' b)"
proof (cases "\<exists>b. baseUrl opts = JStr b")
  case False
  then have "baseUrlStmt opts = []" by (cases "baseUrl opts") (simp_all add: baseUrlStmt_def)
  moreover have "\<not> occurs ''crossOrigin: 'anonymous','' (''      '' @ [] @ '';'')" by code_simp
  ultimately show ?thesis using False by simp
next
  case True
  then obtain b where b: "baseUrl opts = JStr b" by blast
  have t: "''      '' @ baseUrlStmt opts @ '';''
           = (''      dep = '' @ [CHR 0x27]) @ CHR ''/'' # (b @ CHR ''/'' # ([CHR 0x27] @ '' + dep.substring(2);;''))"
    by (simp add: baseUrlStmt_def b)
  have c: "CHR ''/'' \<notin> set ''crossOrigin: 'anonymous',''" by simp
  have x: "\<not> occurs ''crossOrigin: 'anonymous','' (''      dep = '' @ [CHR 0x27])" by code_simp
  have y: "\<not> occurs ''crossOrigin: 'anonymous','' ([CHR 0x27] @ '' + dep.substring(2);;'')" by code_simp
  show ?thesis
    unfolding t occurs_sep [OF c] using x y b by simp
qed

lemma loader_template_has_attr:
  "occurs ''crossOrigin: 'anonymous','' (loader_template stmt ''crossOrigin: 'anonymous','')"
  unfolding loader_template_occurs using occurs_mid by blast

lemma loader_template_no_attr:
  "occurs ''crossOrigin: 'anonymous','' (loader_template (baseUrlStmt opts) [])
     \<longleftrightarrow> (\<exists>b. baseUrl opts = JStr b \<and> occurs ''crossOrigin: 'anonymous','' b)"
  unfolding loader_template_occurs stmt_line_occurs using attr_line_without by blast

text \<open>
  Claim C10: when the options object sets \<^verbatim>\<open>setAnonymousCrossOrigin\<close> to a value other than
  null and undefined, the resolved flag is the value of the property
  \<^verbatim>\<open>anononymousCrossOrigin\<close>; where that property is not set the flag is undefined and
  the template is emitted without the attribute: the text \<^verbatim>\<open>crossOrigin: 'anonymous',\<close>
  stands nowhere in it (unless the base URL itself contains that text). When
  \<^verbatim>\<open>setAnonymousCrossOrigin\<close> is left unset the flag is \<^verbatim>\<open>true\<close> and the template is
  emitted with the attribute in it.
\<close>

theorem crossOrigin_flag_resolution:
  assumes "hoistImportDeps (Some ob) = Inr opts"
  shows "(\<not> nullish (setAnonymousCrossOrigin ob) \<longrightarrow>
            setAnonymousCrossOrigin opts = anononymousCrossOrigin ob
            \<and> (anononymousCrossOrigin ob = JUndefined \<longrightarrow>
                 setAnonymousCrossOrigin opts = JUndefined
                 \<and> (\<exists>text. load opts VIRTUAL_ID_IMPORT = Some text
                       \<and> text = loader_template (baseUrlStmt opts) []
                       \<and> (occurs ''crossOrigin: 'anonymous','' text
                            \<longleftrightarrow> (\<exists>b. baseUrl opts = JStr b \<and> occurs ''crossOrigin: 'anonymous','' b)))))
       \<and> (nullish (setAnonymousCrossOrigin ob) \<longrightarrow>
            setAnonymousCrossOrigin opts = JBool True
            \<and> (\<exists>text. load opts VIRTUAL_ID_IMPORT = Some text
                  \<and> text = loader_template (baseUrlStmt opts) ''crossOrigin: 'anonymous',''
                  \<and> occurs ''crossOrigin: 'anonymous','' text))"
proof -
  let ?flag = "if \<not> nullish (setAnonymousCrossOrigin ob) then anononymousCrossOrigin ob else JBool True"
  from assms have "setAnonymousCrossOrigin opts = ?flag"
    by (auto simp: hoistImportDeps_def Let_def split: if_splits)
  then show ?thesis
    using loader_template_has_attr [of "baseUrlStmt opts"] loader_template_no_attr [of opts]
    by (simp add: load_def crossOriginAttr_def)
qed

theorem crossOrigin_flag_resolution_witness:
  "hoistImportDeps (Some ex_user_options) = Inr (ex_opts_preload\<lparr>setAnonymousCrossOrigin := JUndefined\<rparr>)
   \<and> \<not> nullish (setAnonymousCrossOrigin ex_user_options)
   \<and> anononymousCrossOrigin ex_user_options = JUndefined
   \<and> load (ex_opts_preload\<lparr>setAnonymousCrossOrigin := JUndefined\<rparr>) VIRTUAL_ID_IMPORT
       = Some (loader_template [] [])
   \<and> \<not> occurs ''crossOrigin: 'anonymous','' (loader_template [] [])
   \<and> hoistImportDeps (Some no_options) = Inr ex_opts_preload
   \<and> nullish (setAnonymousCrossOrigin no_options)
   \<and> load ex_opts_preload VIRTUAL_ID_IMPORT = Some (loader_template [] ''crossOrigin: 'anonymous','')
   \<and> occurs ''crossOrigin: 'anonymous','' (loader_template [] ''crossOrigin: 'anonymous','')"
proof -
  have s1: "hoistImportDeps (Some ex_user_options) = Inr (ex_opts_preload\<lparr>setAnonymousCrossOrigin := JUndefined\<rparr>)"
    by (simp add: hoistImportDeps_def ex_user_options_def no_options_def ex_opts_preload_def Let_def)
  have s2: "hoistImportDeps (Some no_options) = Inr ex_opts_preload"
    by (simp add: hoistImportDeps_def no_options_def ex_opts_preload_def Let_def)
  have b: "baseUrlStmt (ex_opts_preload\<lparr>setAnonymousCrossOrigin := JUndefined\<rparr>) = []"
      "baseUrlStmt ex_opts_preload = []"
      "baseUrl (ex_opts_preload\<lparr>setAnonymousCrossOrigin := JUndefined\<rparr>) = JNull"
    by (simp_all add: baseUrlStmt_def ex_opts_preload_def)
  have n: "\<not> nullish (setAnonymousCrossOrigin ex_user_options)"
      "anononymousCrossOrigin ex_user_options = JUndefined"
      "nullish (setAnonymousCrossOrigin no_options)"
    by (simp_all add: ex_user_options_def no_options_def)
  from crossOrigin_flag_resolution [OF s1] crossOrigin_flag_resolution [OF s2] s1 s2 b n
  show ?thesis by simp
qed

section \<open>The recovery of the load target from a wrapped load\<close>

lemma foldl_literal_value:
  "foldl literal_value acc vs =
     (let ls = concat (map (\<lambda>v. case fst v of Literal s e' x r \<Rightarrow> [x] | _ \<Rightarrow> []) vs)
      in if ls = [] then acc else last ls)"
proof (induction vs arbitrary: acc)
  case Nil
  show ?case by simp
next
  case (Cons v vs)
  obtain n p where v: "v = (n, p)" by (cases v)
  show ?case
    by (cases n) (simp_all add: v Cons.IH Let_def)
qed

text \<open>
  Claim C2, as stated: the recovered identifier is the value of the first literal in
  traversal order. In the wrapped load of the example the literals are \<^verbatim>\<open>'./a.js'\<close> and
  then \<^verbatim>\<open>'./b.js'\<close>, and the second one is recovered.
\<close>

theorem find_chunk_name_first_counterexample:
  "literal_values ex_wrapped_load = [JStr ''./a.js'', JStr ''./b.js'']
   \<and> import_chunk_name ex_wrapped_load = JStr ''./b.js''"
  by (simp add: literal_values_def find_chunk_name_def ex_wrapped_load_def)

text \<open>
  Claim C2, amended: for an argument that is not a dynamic-import expression node, the
  recovered identifier is the value of the last literal node in traversal order among the
  argument node and its descendants (and null when there is none).
\<close>

theorem find_chunk_name_last:
  "\<not> is_ImportExpression importExpr \<Longrightarrow>
   import_chunk_name importExpr
     = (if literal_values importExpr = [] then JNull else last (literal_values importExpr))"
  by (cases importExpr)
     (simp_all add: find_chunk_name_def literal_values_def foldl_literal_value Let_def)

theorem find_chunk_name_last_witness:
  "\<not> is_ImportExpression ex_wrapped_load
   \<and> literal_values ex_wrapped_load \<noteq> []
   \<and> import_chunk_name ex_wrapped_load = last (literal_values ex_wrapped_load)
   \<and> last (literal_values ex_wrapped_load) = JStr ''./b.js''"
proof -
  have i: "\<not> is_ImportExpression ex_wrapped_load" by (simp add: ex_wrapped_load_def)
  have l: "literal_values ex_wrapped_load = [JStr ''./a.js'', JStr ''./b.js'']"
    by (simp add: literal_values_def ex_wrapped_load_def)
  from find_chunk_name_last [OF i] l i show ?thesis by simp
qed

section \<open>Pass 1 on a unit without dynamic loads\<close>

lemma walk_fold_skip:
  assumes "\<And>v. v \<in> set vs \<Longrightarrow> enter v st = Inr st"
  shows "walk_fold enter vs st = Inr st"
  using assms by (induction vs) simp_all

lemma transform_walk_no_import:
  assumes "import_sites ast = []"
  shows "walk ast transform_enter (m, False) = Inr (m, False)"
proof -
  have "\<And>v. v \<in> set (visits None ast) \<Longrightarrow> transform_enter v (m, False) = Inr (m, False)"
  proof -
    fix v assume "v \<in> set (visits None ast)"
    then have "fst v \<in> set (map fst (visits None ast))" by simp
    with assms have "\<not> is_ImportExpression (fst v)"
      by (auto simp: import_sites_def filter_empty_conv)
    then show "transform_enter v (m, False) = Inr (m, False)"
      by (simp add: transform_enter_def)
  qed
  then show ?thesis unfolding walk_def by (rule walk_fold_skip)
qed

text \<open>
  Claim C5: a unit whose tree has no dynamic-load expression is returned unchanged
  (\<^verbatim>\<open>null\<close>): no import is injected and no edit is made. The warnings stay as they were.
\<close>

theorem transform_no_dynamic_import:
  assumes "parse src = Inr ast" and "import_sites ast = []"
  shows "transform parse src ident ws = Inr (None, ws)"
  using assms by (simp add: transform_def transform_walk_no_import)

theorem transform_no_dynamic_import_witness:
  "ex_parse ex_src_string = Inr ex_ast_string \<and> import_sites ex_ast_string = []
   \<and> firstpass ex_src_string
   \<and> transform ex_parse ex_src_string ''main.js'' [] = Inr (None, [])"
proof -
  have p: "ex_parse ex_src_string = Inr ex_ast_string" by (simp add: ex_parse_def)
  have i: "import_sites ex_ast_string = []"
    by (simp add: import_sites_def ex_ast_string_def)
  have f: "firstpass ex_src_string"
    by (simp add: ex_src_string_def firstpass_here_def startsWith_def is_space_def)
  from transform_no_dynamic_import [of ex_parse ex_src_string ex_ast_string "''main.js''" "[]"] p i f
  show ?thesis by simp
qed

section \<open>The edit buffer: text and insertions\<close>

lemma contig_le: "contig a cs b \<Longrightarrow> a \<le> b"
  by (induction cs arbitrary: a) (auto intro: less_imp_le order_trans)

lemma contig_bounds:
  "contig a cs b \<Longrightarrow> c \<in> set cs \<Longrightarrow> a \<le> cstart c \<and> cstart c < cend c \<and> cend c \<le> b"
proof (induction cs arbitrary: a)
  case Nil
  then show ?case by simp
next
  case (Cons x cs)
  show ?case
  proof (cases "c = x")
    case True
    with Cons.prems contig_le [of "cend x" cs b] show ?thesis by auto
  next
    case False
    with Cons.prems have "c \<in> set cs" "contig (cend x) cs b" "a < cend x" by auto
    with Cons.IH [of "cend x"] show ?thesis by auto
  qed
qed

lemma outro_at_low: "contig a cs b \<Longrightarrow> i \<le> a \<Longrightarrow> outro_at i cs = []"
  by (induction cs arbitrary: a) auto

lemma intro_at_low: "contig a cs b \<Longrightarrow> i < a \<Longrightarrow> intro_at i cs = []"
  by (induction cs arbitrary: a) auto

lemma intro_at_high: "contig a cs b \<Longrightarrow> b \<le> i \<Longrightarrow> intro_at i cs = []"
proof (induction cs arbitrary: a)
  case Nil
  then show ?case by simp
next
  case (Cons x cs)
  from Cons.prems contig_le [of "cend x" cs b] have "cstart x < i" by auto
  with Cons show ?case by auto
qed

lemma outro_at_last: "contig a cs b \<Longrightarrow> cs \<noteq> [] \<Longrightarrow> outro_at b cs = coutro (last cs)"
proof (induction cs arbitrary: a)
  case Nil
  then show ?case by simp
next
  case (Cons x cs)
  show ?case
  proof (cases cs)
    case Nil
    with Cons.prems show ?thesis by simp
  next
    case (Cons y ys)
    with Cons.prems have "contig (cend x) cs b" "cs \<noteq> []" by auto
    moreover from this Cons contig_bounds [of "cend x" cs b y] have "cend x < b" by auto
    ultimately show ?thesis using Cons.IH [of "cend x"] by auto
  qed
qed

lemma seg_cong: "(\<And>i. x \<le> i \<Longrightarrow> i < y \<Longrightarrow> g i = h i) \<Longrightarrow> seg src g x y = seg src h x y"
  unfolding seg_def by (rule arg_cong [where f = concat]) (rule map_cong, auto)

lemma seg_append: "x \<le> m \<Longrightarrow> m \<le> y \<Longrightarrow> seg src g x y = seg src g x m @ seg src g m y"
proof -
  assume "x \<le> m" "m \<le> y"
  then have "[x..<y] = [x..<m] @ [m..<y]"
    by (metis le_Suc_ex upt_add_eq_append)
  then show ?thesis by (simp add: seg_def)
qed

lemma seg_Cons: "x < y \<Longrightarrow> seg src g x y = g x @ [src ! x] @ seg src g (Suc x) y"
  by (simp add: seg_def upt_conv_Cons)

lemma map_nth_slice: "y \<le> length src \<Longrightarrow> map (\<lambda>i. src ! i) [x..<y] = slice src x y"
proof (rule nth_equalityI)
  assume y: "y \<le> length src"
  show "length (map (\<lambda>i. src ! i) [x..<y]) = length (slice src x y)"
    using y by (simp add: slice_def)
  fix i assume "i < length (map (\<lambda>i. src ! i) [x..<y])"
  then have i: "i < y - x" by simp
  then show "map (\<lambda>i. src ! i) [x..<y] ! i = slice src x y ! i"
    using y by (simp add: slice_def)
qed

lemma seg_plain:
  assumes "\<And>i. x \<le> i \<Longrightarrow> i < y \<Longrightarrow> g i = []" and "y \<le> length src"
  shows "seg src g x y = slice src x y"
proof -
  have "seg src g x y = seg src (\<lambda>i. []) x y"
    using assms(1) by (rule seg_cong)
  also have "\<dots> = map (\<lambda>i. src ! i) [x..<y]"
    by (simp add: seg_def)
  also have "\<dots> = slice src x y"
    using assms(2) by (rule map_nth_slice)
  finally show ?thesis .
qed

lemma slice_Cons: "x < y \<Longrightarrow> y \<le> length src \<Longrightarrow> slice src x y = src ! x # slice src (Suc x) y"
proof -
  assume a: "x < y" "y \<le> length src"
  then have "slice src x y = map (\<lambda>i. src ! i) [x..<y]" by (simp add: map_nth_slice)
  also have "\<dots> = src ! x # map (\<lambda>i. src ! i) [Suc x..<y]" using a by (simp add: upt_conv_Cons)
  also have "\<dots> = src ! x # slice src (Suc x) y" using a by (simp add: map_nth_slice)
  finally show ?thesis .
qed

lemma chunks_text:
  assumes "contig a cs b" and "cs \<noteq> []" and "b \<le> length src"
  shows "concat (map (chunk_toString src) cs)
         = cintro (hd cs) @ [src ! a] @ seg src (\<lambda>i. outro_at i cs @ intro_at i cs) (Suc a) b
           @ coutro (last cs)"
  using assms
proof (induction cs arbitrary: a)
  case Nil
  then show ?case by simp
next
  case (Cons c cs)
  let ?m = "cend c"
  from Cons.prems have c: "cstart c = a" "a < ?m" "cedit c = None" "contig ?m cs b" by auto
  from c(4) have mb: "?m \<le> b" by (rule contig_le)
  have ctext: "chunk_toString src c = cintro c @ [src ! a] @ slice src (Suc a) ?m @ coutro c"
    using c mb Cons.prems(3) by (simp add: chunk_toString_def slice_Cons)
  show ?case
  proof (cases cs)
    case Nil
    with c have "?m = b" by simp
    have "seg src (\<lambda>i. outro_at i [c] @ intro_at i [c]) (Suc a) b = slice src (Suc a) b"
      using c \<open>?m = b\<close> Cons.prems(3) by (intro seg_plain) auto
    with Nil ctext \<open>?m = b\<close> show ?thesis by simp
  next
    case (Cons c' cs')
    let ?g = "\<lambda>i. outro_at i (c # cs) @ intro_at i (c # cs)"
    let ?h = "\<lambda>i. outro_at i cs @ intro_at i cs"
    from Cons c(4) have c': "cstart c' = ?m" "?m < cend c'" by auto
    from c(4) Cons have lt: "?m < b" using contig_bounds [of ?m cs b c'] by auto
    have ih: "concat (map (chunk_toString src) cs)
              = cintro c' @ [src ! ?m] @ seg src ?h (Suc ?m) b @ coutro (last cs)"
      using Cons.IH [OF c(4) _ Cons.prems(3)] Cons by simp
    have low: "seg src ?g (Suc a) ?m = slice src (Suc a) ?m"
    proof (rule seg_plain)
      fix i assume i: "Suc a \<le> i" "i < ?m"
      then have "outro_at i cs = []" "intro_at i cs = []"
        using c(4) by (auto intro: outro_at_low intro_at_low)
      with i c show "?g i = []" by simp
    next
      show "?m \<le> length src" using mb Cons.prems(3) by simp
    qed
    have mid: "?g ?m = coutro c @ cintro c'"
      using c c' Cons by simp
    have high: "seg src ?g (Suc ?m) b = seg src ?h (Suc ?m) b"
      using c by (intro seg_cong) auto
    have "seg src ?g (Suc a) b = seg src ?g (Suc a) ?m @ seg src ?g ?m b"
      using c mb by (intro seg_append) auto
    also have "seg src ?g ?m b = ?g ?m @ [src ! ?m] @ seg src ?g (Suc ?m) b"
      using lt by (rule seg_Cons)
    finally have "seg src ?g (Suc a) b
        = slice src (Suc a) ?m @ coutro c @ cintro c' @ [src ! ?m] @ seg src ?h (Suc ?m) b"
      using low mid high by simp
    with ctext ih Cons show ?thesis by simp
  qed
qed

lemma toString_render:
  assumes "inv m"
  shows "toString m = render (original m) (gap m)"
proof -
  let ?src = "original m" and ?cs = "chunks m"
  let ?n = "length ?src"
  from assms have n: "0 < ?n" and ct: "contig 0 ?cs ?n" by (auto simp: inv_def)
  from ct n have ne: "?cs \<noteq> []" by (cases ?cs) auto
  let ?h = "\<lambda>i. outro_at i ?cs @ intro_at i ?cs"
  have t: "concat (map (chunk_toString ?src) ?cs)
           = cintro (hd ?cs) @ [?src ! 0] @ seg ?src ?h (Suc 0) ?n @ coutro (last ?cs)"
    using chunks_text [OF ct ne] by simp
  have g0: "gap m 0 = intro m @ cintro (hd ?cs)"
    using ct ne n outro_at_low [OF ct, of 0] by (cases ?cs) (auto simp: gap_def)
  have gn: "gap m ?n = coutro (last ?cs) @ outro m"
    using n outro_at_last [OF ct ne] intro_at_high [OF ct, of ?n] by (simp add: gap_def)
  have mid: "seg ?src (gap m) (Suc 0) ?n = seg ?src ?h (Suc 0) ?n"
    by (rule seg_cong) (simp add: gap_def)
  have "render ?src (gap m) = gap m 0 @ [?src ! 0] @ seg ?src (gap m) (Suc 0) ?n @ gap m ?n"
    using n by (simp add: render_def seg_Cons)
  with t g0 gn mid show ?thesis by (simp add: toString_def)
qed


lemma contig_nonempty: "contig a cs b \<Longrightarrow> a < b \<Longrightarrow> cs \<noteq> []"
  by (cases cs) auto

lemma contig_first_start: "contig a cs b \<Longrightarrow> cs \<noteq> [] \<Longrightarrow> \<exists>c\<in>set cs. cstart c = a"
  by (cases cs) auto

lemma contig_last_end: "contig a cs b \<Longrightarrow> cs \<noteq> [] \<Longrightarrow> \<exists>c\<in>set cs. cend c = b"
proof (induction cs arbitrary: a)
  case Nil
  then show ?case by simp
next
  case (Cons x cs)
  then show ?case by (cases cs) auto
qed

lemma contig_inside:
  "contig a cs b \<Longrightarrow> a < i \<Longrightarrow> i < b \<Longrightarrow> \<forall>c\<in>set cs. cstart c \<noteq> i \<and> cend c \<noteq> i
   \<Longrightarrow> \<exists>c\<in>set cs. cstart c < i \<and> i < cend c"
proof (induction cs arbitrary: a)
  case Nil
  then show ?case by simp
next
  case (Cons x cs)
  show ?case
  proof (cases "i < cend x")
    case True
    with Cons.prems show ?thesis by auto
  next
    case False
    with Cons.prems have "cend x < i" "contig (cend x) cs b" by auto
    with Cons.IH [of "cend x"] Cons.prems show ?thesis by auto
  qed
qed

lemma boundary_end:
  "contig a cs b \<Longrightarrow> a < i \<Longrightarrow> \<exists>c\<in>set cs. cstart c = i \<Longrightarrow> \<exists>c\<in>set cs. cend c = i"
proof (induction cs arbitrary: a)
  case Nil
  then show ?case by simp
next
  case (Cons x cs)
  from Cons.prems obtain c where c: "c \<in> set cs" "cstart c = i" by auto
  from Cons.prems have ct: "contig (cend x) cs b" by simp
  show ?case
  proof (cases "cend x = i")
    case True
    then show ?thesis by simp
  next
    case False
    with contig_bounds [OF ct c(1)] c(2) have "cend x < i" by simp
    with Cons.IH [OF ct] c show ?thesis by auto
  qed
qed

lemma boundary_start:
  "contig a cs b \<Longrightarrow> i < b \<Longrightarrow> \<exists>c\<in>set cs. cend c = i \<Longrightarrow> \<exists>c\<in>set cs. cstart c = i"
proof (induction cs arbitrary: a)
  case Nil
  then show ?case by simp
next
  case (Cons x cs)
  from Cons.prems have ct: "contig (cend x) cs b" by simp
  show ?case
  proof (cases "cend x = i")
    case True
    with ct Cons.prems(2) have "cs \<noteq> []" by (auto intro: contig_nonempty)
    with contig_first_start [OF ct] True show ?thesis by auto
  next
    case False
    with Cons.prems have "\<exists>c\<in>set cs. cend c = i" by auto
    with Cons.IH [OF ct Cons.prems(2)] show ?thesis by auto
  qed
qed

lemma split_chunks_contig:
  assumes "contig a cs b" and "c \<in> set cs" and "cstart c < i" and "i < cend c"
  shows "\<exists>cs'. split_chunks i cs = Inr cs' \<and> contig a cs' b
           \<and> (\<forall>j. outro_at j cs' = outro_at j cs) \<and> (\<forall>j. intro_at j cs' = intro_at j cs)
           \<and> (\<exists>x\<in>set cs'. cend x = i) \<and> (\<exists>x\<in>set cs'. cstart x = i)"
  using assms
proof (induction cs arbitrary: a)
  case Nil
  then show ?case by simp
next
  case (Cons x cs)
  from Cons.prems have x: "cstart x = a" "a < cend x" "cedit x = None" and ct: "contig (cend x) cs b"
    by auto
  show ?case
  proof (cases "cstart x < i \<and> i < cend x")
    case True
    have "outro_at i cs = []" using ct True by (intro outro_at_low) auto
    moreover have "intro_at i cs = []" using ct True by (intro intro_at_low) auto
    ultimately show ?thesis using True x ct by auto
  next
    case False
    with Cons.prems have "c \<in> set cs" by auto
    from Cons.IH [OF ct this Cons.prems(3) Cons.prems(4)]
    obtain cs' where cs': "split_chunks i cs = Inr cs'" "contig (cend x) cs' b"
      "\<forall>j. outro_at j cs' = outro_at j cs" "\<forall>j. intro_at j cs' = intro_at j cs"
      "\<exists>x\<in>set cs'. cend x = i" "\<exists>x\<in>set cs'. cstart x = i" by blast
    with False x show ?thesis by auto
  qed
qed

lemma ms_split_inv:
  assumes "inv m" and "i \<le> length (original m)"
  shows "\<exists>m'. ms_split i m = Inr m' \<and> inv m' \<and> original m' = original m
           \<and> intro m' = intro m \<and> outro m' = outro m
           \<and> (\<forall>j. outro_at j (chunks m') = outro_at j (chunks m))
           \<and> (\<forall>j. intro_at j (chunks m') = intro_at j (chunks m))
           \<and> (0 < i \<longrightarrow> (\<exists>c\<in>set (chunks m'). cend c = i))
           \<and> (i < length (original m) \<longrightarrow> (\<exists>c\<in>set (chunks m'). cstart c = i))"
proof -
  let ?n = "length (original m)" and ?cs = "chunks m"
  from assms have n: "0 < ?n" and ct: "contig 0 ?cs ?n" by (auto simp: inv_def)
  from ct n have ne: "?cs \<noteq> []" by (rule contig_nonempty)
  show ?thesis
  proof (cases "\<exists>c\<in>set ?cs. cstart c = i \<or> cend c = i")
    case True
    have e: "0 < i \<longrightarrow> (\<exists>c\<in>set ?cs. cend c = i)"
      using True boundary_end [OF ct, of i] by auto
    have s: "i < ?n \<longrightarrow> (\<exists>c\<in>set ?cs. cstart c = i)"
      using True boundary_start [OF ct, of i] by auto
    from True e s assms show ?thesis by (simp add: ms_split_def)
  next
    case False
    with contig_first_start [OF ct ne] have i0: "0 < i" by (cases i) auto
    from False contig_last_end [OF ct ne] assms(2) have il: "i < ?n" by (cases "i = ?n") auto
    from contig_inside [OF ct i0 il] False obtain c where "c \<in> set ?cs" "cstart c < i" "i < cend c"
      by auto
    from split_chunks_contig [OF ct this]
    obtain cs' where cs': "split_chunks i ?cs = Inr cs'" "contig 0 cs' ?n"
      "\<forall>j. outro_at j cs' = outro_at j ?cs" "\<forall>j. intro_at j cs' = intro_at j ?cs"
      "\<exists>x\<in>set cs'. cend x = i" "\<exists>x\<in>set cs'. cstart x = i" by blast
    with False n show ?thesis by (simp add: ms_split_def inv_def)
  qed
qed

lemma contig_map_outro:
  "contig a (map (\<lambda>c. if cend c = i then c\<lparr>coutro := s @ coutro c\<rparr> else c) cs) b = contig a cs b"
  by (induction cs arbitrary: a) auto

lemma contig_map_intro:
  "contig a (map (\<lambda>c. if cstart c = i then c\<lparr>cintro := cintro c @ s\<rparr> else c) cs) b = contig a cs b"
  by (induction cs arbitrary: a) auto

lemma outro_at_map_outro:
  "outro_at j (map (\<lambda>c. if cend c = i then c\<lparr>coutro := s @ coutro c\<rparr> else c) cs)
   = (if j = i \<and> (\<exists>c\<in>set cs. cend c = i) then s @ outro_at i cs else outro_at j cs)"
  by (induction cs) auto

lemma intro_at_map_outro:
  "intro_at j (map (\<lambda>c. if cend c = i then c\<lparr>coutro := s @ coutro c\<rparr> else c) cs) = intro_at j cs"
  by (induction cs) auto

lemma intro_at_map_intro:
  "intro_at j (map (\<lambda>c. if cstart c = i then c\<lparr>cintro := cintro c @ s\<rparr> else c) cs)
   = (if j = i \<and> (\<exists>c\<in>set cs. cstart c = i) then intro_at i cs @ s else intro_at j cs)"
  by (induction cs) auto

lemma outro_at_map_intro:
  "outro_at j (map (\<lambda>c. if cstart c = i then c\<lparr>cintro := cintro c @ s\<rparr> else c) cs) = outro_at j cs"
  by (induction cs) auto

lemma prependLeft_gap:
  assumes "inv m" and "i \<le> length (original m)"
  shows "\<exists>m'. prependLeft i s m = Inr m' \<and> inv m' \<and> original m' = original m
           \<and> gap m' = (gap m)(i := s @ gap m i)"
proof -
  from ms_split_inv [OF assms] obtain m1 where m1: "ms_split i m = Inr m1" "inv m1"
    "original m1 = original m" "intro m1 = intro m" "outro m1 = outro m"
    "\<forall>j. outro_at j (chunks m1) = outro_at j (chunks m)"
    "\<forall>j. intro_at j (chunks m1) = intro_at j (chunks m)"
    "0 < i \<longrightarrow> (\<exists>c\<in>set (chunks m1). cend c = i)" by blast
  have g1: "gap m1 = gap m" using m1 by (simp add: gap_def fun_eq_iff)
  from m1(2) have ct: "contig 0 (chunks m1) (length (original m1))" by (simp add: inv_def)
  show ?thesis
  proof (cases "i = 0")
    case True
    have "\<not> (\<exists>c\<in>set (chunks m1). cend c = i)"
      using True contig_bounds [OF ct] by fastforce
    with m1 True g1 [symmetric] show ?thesis
      by (auto simp: prependLeft_def inv_def gap_def fun_eq_iff)
  next
    case False
    with m1 have ex: "\<exists>c\<in>set (chunks m1). cend c = i" by simp
    with m1 False g1 [symmetric] show ?thesis
      by (auto simp: prependLeft_def inv_def gap_def fun_eq_iff contig_map_outro
          outro_at_map_outro intro_at_map_outro)
  qed
qed

lemma appendRight_gap:
  assumes "inv m" and "i \<le> length (original m)"
  shows "\<exists>m'. appendRight i s m = Inr m' \<and> inv m' \<and> original m' = original m
           \<and> gap m' = (gap m)(i := gap m i @ s)"
proof -
  from ms_split_inv [OF assms] obtain m1 where m1: "ms_split i m = Inr m1" "inv m1"
    "original m1 = original m" "intro m1 = intro m" "outro m1 = outro m"
    "\<forall>j. outro_at j (chunks m1) = outro_at j (chunks m)"
    "\<forall>j. intro_at j (chunks m1) = intro_at j (chunks m)"
    "i < length (original m) \<longrightarrow> (\<exists>c\<in>set (chunks m1). cstart c = i)" by blast
  have g1: "gap m1 = gap m" using m1 by (simp add: gap_def fun_eq_iff)
  from m1(2) have ct: "contig 0 (chunks m1) (length (original m1))" by (simp add: inv_def)
  show ?thesis
  proof (cases "i = length (original m)")
    case True
    have "\<not> (\<exists>c\<in>set (chunks m1). cstart c = i)"
      using True m1(3) contig_bounds [OF ct] by fastforce
    with m1 True g1 [symmetric] show ?thesis
      by (auto simp: appendRight_def inv_def gap_def fun_eq_iff)
  next
    case False
    with m1 assms(2) have ex: "\<exists>c\<in>set (chunks m1). cstart c = i" by simp
    with m1 False g1 [symmetric] show ?thesis
      by (auto simp: appendRight_def inv_def gap_def fun_eq_iff contig_map_intro
          intro_at_map_intro outro_at_map_intro)
  qed
qed

lemma render_positions:
  "render src g = concat (map (\<lambda>i. g i @ (if i < length src then [src ! i] else [])) [0..<Suc (length src)])"
proof -
  have "map (\<lambda>i. g i @ (if i < length src then [src ! i] else [])) [0..<length src]
        = map (\<lambda>i. g i @ [src ! i]) [0..<length src]"
    by (rule map_cong) auto
  then have "concat (map (\<lambda>i. g i @ (if i < length src then [src ! i] else [])) [0..<length src])
        = seg src g 0 (length src)"
    unfolding seg_def by (rule arg_cong)
  then show ?thesis by (simp add: render_def)
qed

lemma concat_replicate_Suc: "concat (replicate (Suc k) w) = concat (replicate k w) @ w"
  by (induction k) auto

lemma opened_at_Cons:
  "opened_at (x # sites) i = opened_at sites i @ (if nstart x = i then wrap_open else [])"
  by (simp add: opened_at_def concat_replicate_Suc del: replicate.simps)

lemma closed_at_Cons:
  "closed_at (x # sites) i = (if nend x = i then wrap_close else []) @ closed_at sites i"
  by (simp add: closed_at_def)

lemma transform_fold:
  assumes "inv m"
    and "\<forall>v\<in>set vs. is_ImportExpression (fst v) \<longrightarrow>
           nstart (fst v) \<le> length (original m) \<and> nend (fst v) \<le> length (original m)"
  shows "\<exists>m'. walk_fold transform_enter vs (m, h)
                = Inr (m', h \<or> (\<exists>v\<in>set vs. is_ImportExpression (fst v)))
           \<and> inv m' \<and> original m' = original m
           \<and> gap m' = (\<lambda>i. opened_at (filter is_ImportExpression (map fst vs)) i @ gap m i
                            @ closed_at (filter is_ImportExpression (map fst vs)) i)"
  using assms
proof (induction vs arbitrary: m h)
  case Nil
  then show ?case by (simp add: opened_at_def closed_at_def)
next
  case (Cons v vs)
  show ?case
  proof (cases "is_ImportExpression (fst v)")
    case False
    then have "transform_enter v (m, h) = Inr (m, h)" by (simp add: transform_enter_def)
    with Cons.IH [of m h] Cons.prems False show ?thesis by simp
  next
    case True
    let ?s = "nstart (fst v)" and ?e = "nend (fst v)"
    from Cons.prems True have r: "?s \<le> length (original m)" "?e \<le> length (original m)" by auto
    from prependLeft_gap [OF Cons.prems(1) r(1)] obtain m1 where m1:
      "prependLeft ?s wrap_open m = Inr m1" "inv m1" "original m1 = original m"
      "gap m1 = (gap m)(?s := wrap_open @ gap m ?s)" by blast
    from r(2) m1(3) have "?e \<le> length (original m1)" by simp
    from appendRight_gap [OF m1(2) this] obtain m2 where m2:
      "appendRight ?e wrap_close m1 = Inr m2" "inv m2" "original m2 = original m1"
      "gap m2 = (gap m1)(?e := gap m1 ?e @ wrap_close)" by blast
    have step: "transform_enter v (m, h) = Inr (m2, True)"
      using True m1(1) m2(1) by (simp add: transform_enter_def)
    have "\<forall>v\<in>set vs. is_ImportExpression (fst v) \<longrightarrow>
            nstart (fst v) \<le> length (original m2) \<and> nend (fst v) \<le> length (original m2)"
      using Cons.prems(2) m1(3) m2(3) by simp
    from Cons.IH [OF m2(2) this, of True] obtain m' where m':
      "walk_fold transform_enter vs (m2, True) = Inr (m', True)" "inv m'"
      "original m' = original m2"
      "gap m' = (\<lambda>i. opened_at (filter is_ImportExpression (map fst vs)) i @ gap m2 i
                      @ closed_at (filter is_ImportExpression (map fst vs)) i)" by auto
    have g2: "gap m2 = (\<lambda>i. (if ?s = i then wrap_open else []) @ gap m i
                          @ (if ?e = i then wrap_close else []))"
      using m1(4) m2(4) by (auto simp: fun_eq_iff)
    have "gap m' = (\<lambda>i. opened_at (filter is_ImportExpression (map fst (v # vs))) i @ gap m i
                      @ closed_at (filter is_ImportExpression (map fst (v # vs))) i)"
      using True m'(4) g2 by (simp add: opened_at_Cons closed_at_Cons fun_eq_iff)
    with step m' m1(3) m2(3) True show ?thesis by simp
  qed
qed

lemma firstpass_nonempty: "firstpass src \<Longrightarrow> src \<noteq> []"
  by (cases src) auto

lemma inv_MagicString: "src \<noteq> [] \<Longrightarrow> inv (MagicString src)"
  by (simp add: inv_def MagicString_def)

lemma gap_MagicString: "src \<noteq> [] \<Longrightarrow> gap (MagicString src) i = []"
  by (simp add: gap_def MagicString_def)

lemma toString_prepend: "toString (prepend h m) = h @ toString m"
  by (simp add: toString_def prepend_def)

lemma sum_list_indicator:
  "sum_list (map (\<lambda>i. if k = i then (1::nat) else 0) [0..<m]) = (if k < m then 1 else 0)"
  by (induction m) auto

lemma sum_list_count:
  "\<forall>x\<in>set xs. f x \<le> n \<Longrightarrow>
   sum_list (map (\<lambda>i. length (filter (\<lambda>x. f x = i) xs)) [0..<Suc n]) = length xs"
proof (induction xs)
  case Nil
  show ?case by (simp del: upt_Suc)
next
  case (Cons x xs)
  have "(\<lambda>i. length (filter (\<lambda>y. f y = i) (x # xs)))
        = (\<lambda>i. (if f x = i then 1 else 0) + length (filter (\<lambda>y. f y = i) xs))"
    by (auto simp: fun_eq_iff)
  then have "sum_list (map (\<lambda>i. length (filter (\<lambda>y. f y = i) (x # xs))) [0..<Suc n])
        = sum_list (map (\<lambda>i. if f x = i then (1::nat) else 0) [0..<Suc n])
          + sum_list (map (\<lambda>i. length (filter (\<lambda>y. f y = i) xs)) [0..<Suc n])"
    by (simp only: sum_list_addf)
  with Cons show ?case by (simp add: sum_list_indicator del: upt_Suc)
qed

lemma length_concat_replicate: "length (concat (replicate k w)) = k * length w"
  by (induction k) auto

lemma sum_list_const_mult:
  "sum_list (map (\<lambda>i. f i * (c::nat)) xs) = sum_list (map f xs) * c"
  by (induction xs) (auto simp: algebra_simps)

lemma sum_list_cell: "sum_list (map (\<lambda>i. if i < n then (1::nat) else 0) [0..<Suc n]) = n"
proof -
  have "map (\<lambda>i. if i < n then (1::nat) else 0) [0..<n] = map (\<lambda>i. 1) [0..<n]"
    by (rule map_cong) auto
  then have "sum_list (map (\<lambda>i. if i < n then (1::nat) else 0) [0..<n]) = sum_list (map (\<lambda>i. 1) [0..<n])"
    by (rule arg_cong)
  also have "\<dots> = n" by (simp add: sum_list_triv)
  finally show ?thesis by simp
qed

lemma length_wrapped:
  assumes "\<forall>x\<in>set sites. nstart x \<le> length src \<and> nend x \<le> length src"
  shows "length (wrapped src sites)
         = length src + length sites * (length wrap_open + length wrap_close)"
proof -
  let ?n = "length src"
  let ?o = "\<lambda>i. length (filter (\<lambda>x. nstart x = i) sites)"
  let ?c = "\<lambda>i. length (filter (\<lambda>x. nend x = i) sites)"
  have "length (wrapped src sites)
        = sum_list (map (\<lambda>i. (?o i * length wrap_open + ?c i * length wrap_close)
                               + (if i < ?n then 1 else 0)) [0..<Suc ?n])"
    unfolding wrapped_def length_concat map_map
    by (rule arg_cong [where f = sum_list], rule map_cong)
       (auto simp: opened_at_def closed_at_def length_concat_replicate)
  also have "\<dots> = sum_list (map ?o [0..<Suc ?n]) * length wrap_open
                   + sum_list (map ?c [0..<Suc ?n]) * length wrap_close + ?n"
    by (simp only: sum_list_addf sum_list_const_mult sum_list_cell)
  also have "sum_list (map ?o [0..<Suc ?n]) = length sites"
    using assms by (intro sum_list_count) auto
  also have "sum_list (map ?c [0..<Suc ?n]) = length sites"
    using assms by (intro sum_list_count) auto
  finally show ?thesis by (simp add: algebra_simps)
qed

section \<open>Pass 1 on a unit with dynamic loads\<close>

text \<open>
  Claim C4, as stated: every source unit with \<open>N \<ge> 1\<close> dynamic-load expressions comes back
  with \<open>N\<close> wrapper calls and one import statement. The unit \<^verbatim>\<open>import/**/("./a.js")\<close> has
  one dynamic-load expression and is returned unchanged: the pre-filter of line 154 does
  not match a comment between \<^verbatim>\<open>import\<close> and the parenthesis.
\<close>

theorem transform_wraps_every_unit_counterexample:
  "ex_parse ex_src_comment = Inr ex_ast_comment
   \<and> length (import_sites ex_ast_comment) = 1
   \<and> transform ex_parse ex_src_comment ''main.js'' [] = Inr (None, [])"
  by code_simp

text \<open>
  Claim C4, amended: for every source unit other than the virtual loader unit whose text
  matches the pre-filter and parses to a tree with \<open>N \<ge> 1\<close> dynamic-load expressions, all
  positioned inside the text, the transform returns the import statement of the loader
  from the reserved virtual id followed by the text of the unit in which every
  dynamic-load expression stands between \<^verbatim>\<open>__loadDeps(\<close>, inserted at its start, and
  \<^verbatim>\<open>, "__IMPORT_DEPS__")\<close>, inserted at its end: \<open>N\<close> wrapper calls, each with the original
  expression as first and the marker literal as second argument, no character of the unit
  changed. The warnings stay as they were.
\<close>

theorem transform_wraps:
  assumes "ident \<noteq> VIRTUAL_ID_IMPORT" and "firstpass src" and "parse src = Inr ast"
    and "import_sites ast \<noteq> []"
    and "\<forall>n\<in>set (import_sites ast). nstart n \<le> length src \<and> nend n \<le> length src"
  shows "transform parse src ident ws = Inr (Some (loader_import @ wrapped src (import_sites ast)), ws)
         \<and> length (wrapped src (import_sites ast))
             = length src + length (import_sites ast) * (length wrap_open + length wrap_close)"
proof -
  let ?vs = "visits None ast"
  from assms(2) have ne: "src \<noteq> []" by (rule firstpass_nonempty)
  have i0: "inv (MagicString src)" using ne by (rule inv_MagicString)
  have o0: "original (MagicString src) = src" by (simp add: MagicString_def)
  have rng: "\<forall>v\<in>set ?vs. is_ImportExpression (fst v) \<longrightarrow>
      nstart (fst v) \<le> length (original (MagicString src)) \<and> nend (fst v) \<le> length (original (MagicString src))"
    using assms(5) by (auto simp: import_sites_def o0)
  from transform_fold [OF i0 rng, of False] obtain m where m:
    "walk_fold transform_enter ?vs (MagicString src, False)
       = Inr (m, \<exists>v\<in>set ?vs. is_ImportExpression (fst v))"
    "inv m" "original m = src"
    "gap m = (\<lambda>i. opened_at (import_sites ast) i @ gap (MagicString src) i @ closed_at (import_sites ast) i)"
    by (auto simp: import_sites_def o0)
  have has: "\<exists>v\<in>set ?vs. is_ImportExpression (fst v)"
    using assms(4) by (auto simp: import_sites_def filter_empty_conv)
  have g: "gap m = (\<lambda>i. opened_at (import_sites ast) i @ closed_at (import_sites ast) i)"
    using m(4) ne by (simp add: gap_MagicString)
  have "toString m = wrapped src (import_sites ast)"
    using toString_render [OF m(2)] m(3) g by (simp add: render_positions wrapped_def)
  with m(1) has assms(1,2,3) have
    "transform parse src ident ws = Inr (Some (loader_import @ wrapped src (import_sites ast)), ws)"
    by (simp add: transform_def walk_def toString_prepend)
  with length_wrapped [OF assms(5)] show ?thesis by simp
qed

theorem transform_wraps_witness:
  \<open>''main.js'' \<noteq> VIRTUAL_ID_IMPORT \<and> firstpass ex_src_pass1
   \<and> ex_parse ex_src_pass1 = Inr ex_ast_pass1
   \<and> length (import_sites ex_ast_pass1) = 2
   \<and> transform ex_parse ex_src_pass1 ''main.js'' []
       = Inr (Some (loader_import @ wrapped ex_src_pass1 (import_sites ex_ast_pass1)), [])
   \<and> wrapped ex_src_pass1 (import_sites ex_ast_pass1)
       = ''__loadDeps(import("./a.js"), "__IMPORT_DEPS__").then(m => __loadDeps(import("./b.js"), "__IMPORT_DEPS__"));''
   \<and> length (wrapped ex_src_pass1 (import_sites ex_ast_pass1))
       = length ex_src_pass1 + 2 * (length wrap_open + length wrap_close)\<close>
proof -
  have h1: "''main.js'' \<noteq> VIRTUAL_ID_IMPORT" by code_simp
  have h2: "firstpass ex_src_pass1" by code_simp
  have h3: "ex_parse ex_src_pass1 = Inr ex_ast_pass1" by code_simp
  have h4: "import_sites ex_ast_pass1 \<noteq> []" by code_simp
  have h5: "\<forall>n\<in>set (import_sites ex_ast_pass1). nstart n \<le> length ex_src_pass1 \<and> nend n \<le> length ex_src_pass1"
    by code_simp
  have n: "length (import_sites ex_ast_pass1) = 2" by code_simp
  have w: \<open>wrapped ex_src_pass1 (import_sites ex_ast_pass1)
       = ''__loadDeps(import("./a.js"), "__IMPORT_DEPS__").then(m => __loadDeps(import("./b.js"), "__IMPORT_DEPS__"));''\<close>
    by code_simp
  from transform_wraps [where parse = ex_parse and src = ex_src_pass1 and ws = "[]", OF h1 h2 h3 h4 h5]
    h1 h2 h3 n w
  show ?thesis by simp
qed

section \<open>Pass 2: the text of a finalized chunk\<close>

















lemma getDeps_not_a_string:
  assumes "\<And>t. x \<noteq> JStr t"
  shows "\<exists>err. getDeps opts x graph = Inl err"
proof (cases x)
  case (JStr t)
  with assms show ?thesis by blast
qed (simp_all add: getDeps_def)

lemma finalize_enter_Throw:
  assumes "action_of opts graph v = Throw"
  shows "\<exists>err. finalize_enter opts graph v m = Inl err"
proof -
  from assms have mk: "is_marker (fst v)" by (auto simp: action_of_def split: if_splits)
  show ?thesis
  proof (cases "first_argument (snd v)")
    case (Inl err)
    with mk show ?thesis by (simp add: finalize_enter_def)
  next
    case (Inr arg)
    show ?thesis
    proof (cases arg)
      case None
      with assms mk Inr show ?thesis by (simp add: action_of_def)
    next
      case (Some importExpr)
      let ?x = "import_chunk_name importExpr"
      have "truthy ?x \<and> (\<exists>err. getDeps opts ?x graph = Inl err)"
      proof (cases "\<exists>t. ?x = JStr t")
        case True
        then obtain t where t: "?x = JStr t" by blast
        with assms mk Inr Some show ?thesis
          by (auto simp: action_of_def split: if_splits sum.splits)
      next
        case False
        then have "\<exists>err. getDeps opts ?x graph = Inl err" by (intro getDeps_not_a_string) auto
        moreover from False assms mk Inr Some have "truthy ?x"
          by (cases ?x) (auto simp: action_of_def split: if_splits)
        ultimately show ?thesis by simp
      qed
      then obtain err where x: "truthy ?x" "getDeps opts ?x graph = Inl err" by blast
      show ?thesis
      proof (cases "overwrite (nstart importExpr) (nend importExpr) (quoted ?x) m")
        case (Inl err')
        with mk Inr Some x show ?thesis by (simp add: finalize_enter_def Let_def)
      next
        case (Inr m1)
        with mk \<open>first_argument (snd v) = Inr arg\<close> Some x show ?thesis
          by (simp add: finalize_enter_def Let_def)
      qed
    qed
  qed
qed

lemma finalize_enter_other: "\<not> is_marker (fst v) \<Longrightarrow> finalize_enter opts graph v m = Inr m"
  by (simp add: finalize_enter_def)

























section \<open>Pass 2 run twice\<close>





















section \<open>Parse errors\<close>




section \<open>A marker literal outside a call\<close>

text \<open>
  Claim C9 names the configuration error the only fatal failure. In the chunk
  \<^verbatim>\<open>var s = "__IMPORT_DEPS__"; __loadDeps(import("./x.js"), "__IMPORT_DEPS__");\<close> the walk
  enters the string of the variable declaration, a literal with the text of the marker
  whose parent has no \<^verbatim>\<open>arguments\<close>: line 235 throws a \<^verbatim>\<open>TypeError\<close> and
  \<^verbatim>\<open>generateBundle\<close> ends with it.
\<close>

theorem generateBundle_marker_outside_call:
  "generateBundle ex_parse ex_opts_preload ex_bundle_var []
     = Inl (TypeError ''Cannot read properties of undefined (reading 0)'')"
  by code_simp

end
